theory Spec2Isabelle
  imports Complex_Main "HOL-Library.Word" "HOL-Library.Log_Nat"
begin

unbundle bit_operations_syntax

section \<open>Machine types and constants\<close>

type_synonym byte = "8 word"

text \<open>
  The signed 32-bit counters of both programs (\<^verbatim>\<open>int32_t\<close>) are modelled as \<^typ>\<open>int\<close>.
  Every addition the source performs on them is guarded by an explicit comparison against
  \<^verbatim>\<open>INT32_MAX\<close>; the guards are kept as they are written, so no value of the model
  leaves the 32-bit range.
\<close>

definition INT32_MAX :: int where
  "INT32_MAX = 2147483647"

definition BUFFER_SAMPLES :: int where
  "BUFFER_SAMPLES = 4096"

definition LINE_MAXIMUM :: nat where
  "LINE_MAXIMUM = 1023"

section \<open>IEEE 754 binary64 arithmetic\<close>

text \<open>
  The C type \<^verbatim>\<open>double\<close> is taken to be IEEE 754 binary64 with the default rounding
  (to nearest, ties to even). A finite value is the rational number it denotes;
  \<open>None\<close> stands for every value that is not finite (an infinity or a NaN). Both
  programs reject every non-finite value alike, so they need not be told apart. The
  sign of zero is not modelled: the programs only multiply, divide by a converted integer,
  floor, compare and convert back, none of which can observe it.
\<close>

type_synonym double = "rat option"

text \<open>The exponent of a positive rational: the \<open>e\<close> with \<open>2^e \<le> x < 2^(e+1)\<close>.\<close>

definition floor_log2 :: "rat \<Rightarrow> int" where
  "floor_log2 x = (case quotient_of x of (a, b) \<Rightarrow>
     (let k = bitlen a - bitlen b in if 2 powi k \<le> x then k else k - 1))"

text \<open>Rounding a rational to the nearest integer, a tie going to the even neighbour.\<close>

definition round_ne :: "rat \<Rightarrow> int" where
  "round_ne q = (let n = \<lfloor>q\<rfloor>; d = q - of_int n in
     if d < 1 / 2 then n else if 1 / 2 < d then n + 1 else if even n then n else n + 1)"

text \<open>
  Rounding a real result to binary64: 53 significant bits, the least exponent -1022
  (below it the spacing stays \<open>2^-1074\<close>: subnormal numbers), overflow to infinity once
  the rounded magnitude reaches \<open>2^1024\<close>.
\<close>

definition fl :: "rat \<Rightarrow> double" where
  "fl x = (if x = 0 then Some 0 else
     (let e = max (floor_log2 \<bar>x\<bar>) (- 1022);
          u = 2 powi (e - 52);
          y = of_int (round_ne (\<bar>x\<bar> / u)) * u
      in if 2 powi 1024 \<le> y then None else Some (sgn x * y)))"

text \<open>\<^verbatim>\<open>(double) i\<close> for an integer \<open>i\<close>.\<close>

definition double_of_int :: "int \<Rightarrow> double" where
  "double_of_int i = fl (of_int i)"

text \<open>\<^verbatim>\<open>a * b\<close> and \<^verbatim>\<open>a / b\<close> on doubles. A division by zero gives an infinity or a NaN.\<close>

definition dmul :: "double \<Rightarrow> double \<Rightarrow> double" where
  "dmul a b = (case a of None \<Rightarrow> None | Some x \<Rightarrow>
     (case b of None \<Rightarrow> None | Some y \<Rightarrow> fl (x * y)))"

definition ddiv :: "double \<Rightarrow> double \<Rightarrow> double" where
  "ddiv a b = (case a of None \<Rightarrow> None | Some x \<Rightarrow>
     (case b of None \<Rightarrow> None | Some y \<Rightarrow> if y = 0 then None else fl (x / y)))"

text \<open>\<^verbatim>\<open>floor(a)\<close>: exact on every finite double, the identity on the others.\<close>

definition dfloor :: "double \<Rightarrow> double" where
  "dfloor a = (case a of None \<Rightarrow> None | Some x \<Rightarrow> Some (of_int \<lfloor>x\<rfloor>))"

text \<open>
  The conversion shared by both programs:
  \<^verbatim>\<open>floor((((double) t) * ((double) target)) / ((double) source))\<close>.
\<close>

definition rate_convert :: "int \<Rightarrow> int \<Rightarrow> int \<Rightarrow> double" where
  "rate_convert t target source =
     dfloor (ddiv (dmul (double_of_int t) (double_of_int target)) (double_of_int source))"


subsection \<open>Properties of the rounding\<close>

lemma pow2_powi_nat: "0 \<le> k \<Longrightarrow> (2::rat) powi k = 2 ^ nat k"
  by (simp add: power_int_def)

lemma bitlen_pos_bounds_rat:
  assumes "0 < a"
  shows "(2::rat) powi (bitlen a - 1) \<le> of_int a" "(of_int a :: rat) < 2 powi (bitlen a)"
proof -
  from assms have b1: "1 \<le> bitlen a" by (auto simp: bitlen_alt_def)
  from bitlen_bounds[OF assms] have lo: "2 ^ nat (bitlen a - 1) \<le> a" and hi: "a < 2 ^ nat (bitlen a)"
    by auto
  have "(of_int (2 ^ nat (bitlen a - 1)) :: rat) \<le> of_int a" using lo by (simp only: of_int_le_iff)
  then show "(2::rat) powi (bitlen a - 1) \<le> of_int a" using b1 by (simp add: pow2_powi_nat)
  have "(of_int a :: rat) < of_int (2 ^ nat (bitlen a))" using hi by (simp only: of_int_less_iff)
  then show "(of_int a :: rat) < 2 powi (bitlen a)" using b1 by (simp add: pow2_powi_nat)
qed

lemma floor_log2_bounds:
  assumes "0 < x"
  shows "2 powi (floor_log2 x) \<le> x" "x < 2 powi (floor_log2 x + 1)"
proof -
  obtain a b where q: "quotient_of x = (a, b)" by (cases "quotient_of x")
  have b: "0 < b" using q by (rule quotient_of_denom_pos)
  have x: "x = of_int a / of_int b" using q by (rule quotient_of_div)
  have a: "0 < a" using assms b x by (simp add: zero_less_divide_iff)
  note A = bitlen_pos_bounds_rat[OF a] and B = bitlen_pos_bounds_rat[OF b]
  define k where "k = bitlen a - bitlen b"
  have fl: "floor_log2 x = (if 2 powi k \<le> x then k else k - 1)"
    by (simp add: floor_log2_def q k_def Let_def)
  have bpos: "(0::rat) < of_int b" using b by simp
  have p1: "(2::rat) powi (k - 1) = 2 powi (bitlen a - 1) / 2 powi (bitlen b)"
    unfolding k_def by (simp add: power_int_diff)
  have "k + 1 = bitlen a - (bitlen b - 1)"
    by (simp add: k_def)
  then have "(2::rat) powi (k + 1) = 2 powi (bitlen a - (bitlen b - 1))"
    by (simp only:)
  also have "\<dots> = 2 powi (bitlen a) / 2 powi (bitlen b - 1)"
    by (rule power_int_diff) simp
  finally have p2: "(2::rat) powi (k + 1) = 2 powi (bitlen a) / 2 powi (bitlen b - 1)" .
  have lo: "(2::rat) powi (k - 1) \<le> x"
    unfolding p1 x using A(1) B(2) bpos a
    by (intro frac_le) auto
  have hi: "x < (2::rat) powi (k + 1)"
    unfolding p2 x using A(2) B(1) bpos a
    by (intro frac_less) auto
  show "2 powi (floor_log2 x) \<le> x" using lo by (simp add: fl)
  show "x < 2 powi (floor_log2 x + 1)" using hi by (auto simp add: fl not_le)
qed

lemma round_ne_of_int: "round_ne (of_int k) = k"
  by (simp add: round_ne_def)

lemma round_ne_ge_floor: "\<lfloor>q\<rfloor> \<le> round_ne q"
  by (simp add: round_ne_def Let_def)

lemma round_ne_lower: "of_int k \<le> q \<Longrightarrow> k \<le> round_ne q"
proof -
  assume "of_int k \<le> q"
  then have "k \<le> \<lfloor>q\<rfloor>" by (simp add: le_floor_iff)
  then show ?thesis using round_ne_ge_floor[of q] by linarith
qed

lemma round_ne_upper: "q \<le> of_int k \<Longrightarrow> round_ne q \<le> k"
proof -
  assume a: "q \<le> of_int k"
  show ?thesis
  proof (cases "q = of_int k")
    case True then show ?thesis by (simp add: round_ne_of_int)
  next
    case False
    with a have "q < of_int k" by simp
    then have "\<lfloor>q\<rfloor> < k" by (simp add: floor_less_iff)
    then show ?thesis by (simp add: round_ne_def Let_def)
  qed
qed

lemma round_ne_below_half: 
  assumes "q < of_int k - 1 / 2" shows "round_ne q < k"
proof -
  have "q < of_int k" using assms by linarith
  then have f: "\<lfloor>q\<rfloor> \<le> k - 1" by (simp add: floor_less_iff)
  show ?thesis
  proof (cases "\<lfloor>q\<rfloor> = k - 1")
    case True
    then have "q - of_int \<lfloor>q\<rfloor> < 1 / 2" using assms by simp
    then show ?thesis using True by (simp add: round_ne_def Let_def)
  next
    case False
    with f have "\<lfloor>q\<rfloor> + 1 < k" by simp
    then show ?thesis by (simp add: round_ne_def Let_def)
  qed
qed

lemma fl_small:
  assumes "0 < x" "x < 2 ^ n" "n \<le> 53"
  shows "\<exists>m::nat. 53 \<le> n + m \<and> fl x = Some (of_int (round_ne (x * 2 ^ m)) / 2 ^ m)"
proof -
  define e where "e = max (floor_log2 x) (- 1022)"
  define m where "m = nat (52 - e)"
  have "(2::rat) powi (floor_log2 x) < 2 powi (int n)"
    using floor_log2_bounds(1)[OF assms(1)] assms(2) by simp
  then have "floor_log2 x < int n"
    using power_int_le_imp_less_exp[of "2::rat" "floor_log2 x" "int n"] by simp
  then have e: "e \<le> int n - 1" using assms(3) by (simp add: e_def)
  then have e52: "e - 52 = - int m" and nm: "53 \<le> n + m" using assms(3) by (simp_all add: m_def)
  have u: "(2::rat) powi (e - 52) = 1 / 2 ^ m"
    unfolding e52 by (simp add: power_int_minus field_simps)
  define r where "r = round_ne (x * 2 ^ m)"
  have "x * 2 ^ m \<le> of_int (2 ^ (n + m))" using assms(2) by (simp add: power_add)
  then have "r \<le> 2 ^ (n + m)" unfolding r_def by (rule round_ne_upper)
  then have "(of_int r :: rat) \<le> of_int (2 ^ (n + m))" by (simp only: of_int_le_iff)
  then have "(of_int r :: rat) / 2 ^ m \<le> 2 ^ n" by (simp add: power_add field_simps)
  also have "(2::rat) ^ n \<le> 2 ^ 53" using assms(3) by (intro power_increasing) auto
  also have "(2::rat) ^ 53 < 2 ^ 1024" by (intro power_strict_increasing) auto
  finally have ov: "\<not> (2::rat) ^ 1024 \<le> of_int r / 2 ^ m" by simp
  have x0: "x \<noteq> 0" "\<bar>x\<bar> = x" "sgn x = 1" using assms(1) by simp_all
  have "fl x = Some (of_int r / 2 ^ m)"
    using ov by (simp add: fl_def x0 Let_def e_def[symmetric] u r_def[symmetric])
  with nm show ?thesis unfolding r_def by blast
qed

lemma fl_zero: "fl 0 = Some 0"
  by (simp add: fl_def)

lemma fl_of_int:
  assumes "0 \<le> i" "i < 2 ^ 53"
  shows "fl (of_int i) = Some (of_int i)"
proof (cases "i = 0")
  case True then show ?thesis by (simp add: fl_zero)
next
  case False
  with assms have "(0::rat) < of_int i" "(of_int i :: rat) < 2 ^ 53"
    by (simp_all add: of_int_less_numeral_power_cancel_iff)
  from fl_small[OF this] obtain m :: nat
    where "fl (of_int i) = Some (of_int (round_ne (of_int i * 2 ^ m)) / 2 ^ m)" by auto
  moreover have "round_ne (of_int i * 2 ^ m) = i * 2 ^ m"
    using round_ne_of_int[of "i * 2 ^ m"] by simp
  ultimately show ?thesis by simp
qed

lemma fl_ge_floor:
  assumes "0 < x" "x < 2 ^ 53"
  shows "\<exists>y. fl x = Some y \<and> of_int \<lfloor>x\<rfloor> \<le> y"
proof -
  from fl_small[OF assms] obtain m :: nat
    where m: "fl x = Some (of_int (round_ne (x * 2 ^ m)) / 2 ^ m)" by auto
  have "of_int (\<lfloor>x\<rfloor> * 2 ^ m) \<le> x * 2 ^ m" by simp
  then have "\<lfloor>x\<rfloor> * 2 ^ m \<le> round_ne (x * 2 ^ m)" by (rule round_ne_lower)
  then have "(of_int (\<lfloor>x\<rfloor> * 2 ^ m) :: rat) \<le> of_int (round_ne (x * 2 ^ m))"
    by (simp only: of_int_le_iff)
  then have "(of_int \<lfloor>x\<rfloor> :: rat) \<le> of_int (round_ne (x * 2 ^ m)) / 2 ^ m"
    by (simp add: field_simps)
  with m show ?thesis by simp
qed

lemma fl_quot_floor:
  assumes p: "0 \<le> p" and r: "0 < r" and k: "p div r < 2 ^ n" and n: "n \<le> 53"
    and rn: "r \<le> 2 ^ (53 - n)"
  shows "\<exists>y. fl (of_int p / of_int r) = Some y \<and> \<lfloor>y\<rfloor> = p div r"
proof (cases "p = 0")
  case True then show ?thesis by (simp add: fl_zero)
next
  case False
  define x :: rat where "x = of_int p / of_int r"
  define k where "k = p div r"
  have rpos: "(0::rat) < of_int r" using r by simp
  have xpos: "0 < x" using False p r by (simp add: x_def)
  have pk: "p = k * r + p mod r" by (simp add: k_def)
  have pm: "p mod r \<le> r - 1" using r pos_mod_bound[of r p] by simp
  have "p \<le> k * r + (r - 1)" using pk pm by linarith
  then have "(of_int p :: rat) \<le> of_int (k * r + (r - 1))" by (simp only: of_int_le_iff)
  then have xle: "x \<le> of_int k + 1 - 1 / of_int r"
    using rpos by (simp add: x_def field_simps)
  have "k + 1 \<le> 2 ^ n" using k by (simp add: k_def)
  then have "(of_int (k + 1) :: rat) \<le> of_int (2 ^ n)" by (simp only: of_int_le_iff)
  then have k1: "(of_int k :: rat) + 1 \<le> 2 ^ n" by simp
  have "1 / (of_int r :: rat) > 0" using rpos by simp
  with xle k1 have xlt: "x < 2 ^ n" by linarith
  from fl_small[OF xpos xlt n] obtain m :: nat
    where nm: "53 \<le> n + m" and m: "fl x = Some (of_int (round_ne (x * 2 ^ m)) / 2 ^ m)" by auto
  define y :: rat where "y = of_int (round_ne (x * 2 ^ m)) / 2 ^ m"
  have "k * r \<le> p" using pk r pos_mod_sign[of r p] by linarith
  then have "(of_int (k * r) :: rat) \<le> of_int p" by (simp only: of_int_le_iff)
  then have kx: "of_int k \<le> x" using rpos by (simp add: x_def field_simps)
  then have "of_int (k * 2 ^ m) \<le> x * 2 ^ m" by simp
  then have "k * 2 ^ m \<le> round_ne (x * 2 ^ m)" by (rule round_ne_lower)
  then have "(of_int (k * 2 ^ m) :: rat) \<le> of_int (round_ne (x * 2 ^ m))"
    by (simp only: of_int_le_iff)
  then have lo: "of_int k \<le> y" by (simp add: y_def field_simps)
  have "(2::int) ^ (53 - n) \<le> 2 ^ m" using nm by (intro power_increasing) auto
  with rn have "r \<le> 2 ^ m" by linarith
  then have "(of_int r :: rat) \<le> of_int (2 ^ m)" by (simp only: of_int_le_iff)
  then have half: "(1::rat) \<le> 2 ^ m / of_int r" using rpos by (simp add: field_simps)
  have "x * 2 ^ m \<le> (of_int k + 1 - 1 / of_int r) * 2 ^ m"
    using xle by (intro mult_right_mono) auto
  also have "\<dots> = (of_int k + 1) * 2 ^ m - 2 ^ m / of_int r"
    by (simp add: left_diff_distrib)
  finally have "x * 2 ^ m \<le> (of_int k + 1) * 2 ^ m - 2 ^ m / of_int r" .
  moreover have "(of_int ((k + 1) * 2 ^ m) :: rat) = (of_int k + 1) * 2 ^ m" by simp
  ultimately have "x * 2 ^ m < of_int ((k + 1) * 2 ^ m) - 1 / 2" using half by linarith
  then have "round_ne (x * 2 ^ m) < (k + 1) * 2 ^ m" by (rule round_ne_below_half)
  then have "(of_int (round_ne (x * 2 ^ m)) :: rat) < of_int ((k + 1) * 2 ^ m)"
    by (simp only: of_int_less_iff)
  then have "y < (of_int k + 1) * 2 ^ m / 2 ^ m"
    unfolding y_def by (intro divide_strict_right_mono) simp_all
  then have hi: "y < of_int k + 1" by simp
  have "\<lfloor>y\<rfloor> = k" using lo hi by (rule floor_unique)
  then have "\<lfloor>y\<rfloor> = p div r" by (simp only: k_def)
  moreover have "fl (of_int p / of_int r) = Some y" using m by (simp only: x_def y_def)
  ultimately show ?thesis by blast
qed


section \<open>The script interpreter (retro_opl.c)\<close>

subsection \<open>Errors and effects\<close>

text \<open>
  Every diagnostic of the interpreter ends in \<^verbatim>\<open>raiseErr()\<close>, which exits the process.
  An error is therefore a result value; the constructor names the message printed, and
  carries the line number where the message does. \<open>LineTooLongUB\<close> is the exception:
  for a line over 1023 bytes the source calls \<^verbatim>\<open>fprintf\<close> with the format
  \<^verbatim>\<open>"%s: Line %ld is too long!"\<close> and the line number as its only argument, so the
  \<^verbatim>\<open>%s\<close> conversion has no string to print. That is undefined behaviour in C: the
  model stops there with \<open>LineTooLongUB\<close> and promises neither a message nor an exit
  status. \<open>BadState\<close> is a bare
  \<^verbatim>\<open>raiseErr()\<close> after a failed parameter or state check. Failures of the underlying
  streams (read, write and seek errors) are not modelled: standard input is a finite
  list of bytes and every write succeeds.
\<close>

datatype error =
    BadState
  | UnsupportedRate       \<comment> \<open>Unsupported sampling rate!\<close>
  | HeaderMissing         \<comment> \<open>Failed to read header line!\<close>
  | HeaderNotOPL2         \<comment> \<open>Input does not have OPL2 header!\<close>
  | ControlRateRange      \<comment> \<open>Control rate must be in range [1, 1024]!\<close>
  | HeaderSyntax          \<comment> \<open>Invalid header line syntax!\<close>
  | ByteParseFailed int   \<comment> \<open>Byte parse failed on line n!\<close>
  | IntParseFailed int    \<comment> \<open>Integer parse failed on line n!\<close>
  | IntOverflow int       \<comment> \<open>Integer value overflow on line n!\<close>
  | TooManyLines          \<comment> \<open>Too many lines in input!\<close>
  | CRWithoutLF int       \<comment> \<open>CR without following LF on line n!\<close>
  | InvalidChar int       \<comment> \<open>Line n contains invalid character!\<close>
  | LineTooLongUB         \<comment> \<open>no diagnostic: undefined behaviour on a line over 1023 bytes\<close>
  | InvalidCommand int    \<comment> \<open>Invalid command on line n!\<close>
  | CommandSyntax int     \<comment> \<open>Invalid command syntax on line n!\<close>
  | TimeOverflow          \<comment> \<open>Time counter overflow!\<close>
  | NumericProblem        \<comment> \<open>Numeric problem computing offset!\<close>
  | OffsetRange           \<comment> \<open>Sample offset out of range!\<close>
  | SampleOverflow        \<comment> \<open>Sample count overflow!\<close>
  | FileSizeOverflow      \<comment> \<open>Overflow computing file size!\<close>

text \<open>
  The calls into the audio device (\<^verbatim>\<open>opl_driver.h\<close>) and the writes to the WAV file, in
  the order the program performs them. The samples themselves are opaque: an event
  records how many were generated or written.
\<close>

datatype event =
    OplInit int           \<comment> \<open>\<^verbatim>\<open>opl_init(sample_rate)\<close>\<close>
  | OplWrite byte byte    \<comment> \<open>\<^verbatim>\<open>opl_write(reg, val)\<close>\<close>
  | OplGenerate int       \<comment> \<open>\<^verbatim>\<open>opl_generate(buffer, count)\<close>\<close>
  | OplFinish             \<comment> \<open>\<^verbatim>\<open>opl_finish()\<close>\<close>
  | WavBegin int          \<comment> \<open>\<^verbatim>\<open>beginWAV\<close>: the file is created and its header written\<close>
  | WavSamples int        \<comment> \<open>\<^verbatim>\<open>flushBuffer\<close>: that many buffered samples are written\<close>
  | WavSizes int int      \<comment> \<open>\<^verbatim>\<open>finishWAV\<close>: chunk size and data size are patched in\<close>

text \<open>The global variables of the program, its standard input, and the effects so far.\<close>

record state =
  input :: "byte list"
  line_count :: int
  l_buf :: "byte list"
  s_total :: int
  s_fill :: int
  events :: "event list"

subsection \<open>Rate conversion in the interpreter\<close>

text \<open>
  Comparison of doubles. A comparison with a NaN is false; the model also answers false
  for an infinity, which both programs only ever compare inside a test that an infinity
  fails in any case (see \<open>sample_offset\<close> and \<open>control_offset\<close>).
\<close>

definition dle :: "double \<Rightarrow> double \<Rightarrow> bool" where
  "dle a b = (case a of None \<Rightarrow> False | Some x \<Rightarrow>
     (case b of None \<Rightarrow> False | Some y \<Rightarrow> x \<le> y))"

text \<open>
  \<^verbatim>\<open>(int32_t) a\<close>: truncation towards zero. Both programs convert only after checking
  that the value lies in \<open>[0, INT32_MAX]\<close>; the value given to a non-finite argument
  is never used.
\<close>

definition int32_of_double :: "double \<Rightarrow> int" where
  "int32_of_double a = (case a of None \<Rightarrow> 0 | Some x \<Rightarrow> if 0 \<le> x then \<lfloor>x\<rfloor> else \<lceil>x\<rceil>)"

text \<open>
  The body of the \<^verbatim>\<open>w\<close> command from the computation of \<^verbatim>\<open>so\<close> to the assignment of
  \<^verbatim>\<open>soi\<close>: the new sample offset for the time \<open>t\<close>, or the error raised.
\<close>

definition sample_offset :: "int \<Rightarrow> int \<Rightarrow> int \<Rightarrow> error + int" where
  "sample_offset t sample_rate rate =
     (let so = rate_convert t sample_rate rate in
      if so = None then Inl NumericProblem
      else if \<not> (dle (Some 0) so \<and> dle so (double_of_int INT32_MAX)) then Inl OffsetRange
      else Inr (int32_of_double so))"


subsection \<open>The conversion is exact integer division\<close>

text \<open>
  With a time below \<open>2^31\<close> and a target rate below \<open>2^16\<close> the product is an integer
  below \<open>2^53\<close>, so the multiplication is exact; the quotient is rounded once, and the
  rounding cannot reach the next integer while the quotient stays below \<open>2^31\<close> and
  the divisor below \<open>2^22\<close>. The floating-point computation therefore yields exactly
  \<open>(t * target) div source\<close>, and the range check is exactly the test of that quotient
  against \<open>INT32_MAX\<close>.
\<close>

lemma double_of_int_exact: "0 \<le> i \<Longrightarrow> i < 2 ^ 53 \<Longrightarrow> double_of_int i = Some (of_int i)"
  by (simp add: double_of_int_def fl_of_int)

lemma product_bound:
  fixes t s :: int
  assumes "0 \<le> t" "t < 2 ^ 31" "0 \<le> s" "s < 2 ^ 16"
  shows "0 \<le> t * s" "t * s < 2 ^ 47"
proof -
  show "0 \<le> t * s" using assms by simp
  have "t * s \<le> 2 ^ 31 * 2 ^ 16" using assms by (intro mult_mono) auto
  moreover have "t * s \<noteq> 2 ^ 31 * 2 ^ 16"
  proof
    assume e: "t * s = 2 ^ 31 * 2 ^ 16"
    have "t * s \<le> (2 ^ 31 - 1) * 2 ^ 16" using assms by (intro mult_mono) auto
    with e show False by simp
  qed
  ultimately show "t * s < 2 ^ 47" by simp
qed

lemma dmul_exact:
  assumes "0 \<le> t" "t < 2 ^ 31" "0 \<le> s" "s < 2 ^ 16"
  shows "dmul (double_of_int t) (double_of_int s) = Some (of_int (t * s))"
proof -
  have t: "double_of_int t = Some (of_int t)" using assms by (intro double_of_int_exact) auto
  have s: "double_of_int s = Some (of_int s)" using assms by (intro double_of_int_exact) auto
  note pb = product_bound[OF assms]
  have "t * s < 2 ^ 53" using pb(2) by simp
  then have "fl (of_int (t * s)) = Some (of_int (t * s))" using pb(1) by (intro fl_of_int)
  then show ?thesis by (simp add: dmul_def t s)
qed

lemma rate_convert_quotient:
  assumes "0 \<le> t" "t < 2 ^ 31" "0 \<le> s" "s < 2 ^ 16" "0 < r" "r < 2 ^ 31"
  shows "rate_convert t s r = dfloor (fl (of_int (t * s) / of_int r))"
proof -
  have r: "double_of_int r = Some (of_int r)" using assms by (intro double_of_int_exact) auto
  show ?thesis using assms(5)
    by (simp add: rate_convert_def dmul_exact[OF assms(1-4)] r ddiv_def)
qed

lemma rate_convert_in_range:
  assumes "0 \<le> t" "t < 2 ^ 31" "0 \<le> s" "s < 2 ^ 16" "0 < r" "r \<le> 2 ^ 22"
    and "(t * s) div r < 2 ^ 31"
  shows "rate_convert t s r = Some (of_int ((t * s) div r))"
proof -
  have "r < 2 ^ 31" using assms(6) by simp
  note q = rate_convert_quotient[OF assms(1-5) this]
  have "r \<le> 2 ^ (53 - 31)" using assms(6) by simp
  from fl_quot_floor[OF product_bound(1)[OF assms(1-4)] assms(5) assms(7) _ this]
  obtain y where "fl (of_int (t * s) / of_int r) = Some y" "\<lfloor>y\<rfloor> = (t * s) div r" by auto
  then show ?thesis by (simp add: q dfloor_def)
qed

lemma rate_convert_too_big:
  assumes "0 \<le> t" "t < 2 ^ 31" "0 \<le> s" "s < 2 ^ 16" "0 < r" "r < 2 ^ 31"
    and "2 ^ 31 \<le> (t * s) div r"
  shows "\<exists>v. rate_convert t s r = Some v \<and> 2 ^ 31 \<le> v"
proof -
  note q = rate_convert_quotient[OF assms(1-6)]
  note pb = product_bound[OF assms(1-4)]
  define x :: rat where "x = of_int (t * s) / of_int r"
  have fx: "\<lfloor>x\<rfloor> = (t * s) div r" unfolding x_def by (rule floor_divide_of_int_eq)
  have "(1::rat) \<le> of_int \<lfloor>x\<rfloor>" using assms(7) fx by simp
  also have "\<dots> \<le> x" by simp
  finally have xpos: "0 < x" by simp
  have "(of_int (t * s) :: rat) < of_int (2 ^ 47)" using pb(2) by (simp only: of_int_less_iff)
  then have ts: "(of_int (t * s) :: rat) < 2 ^ 53" by simp
  have "(1::rat) \<le> of_int r" using assms(5) by simp
  moreover have "(0::rat) \<le> of_int (t * s)" using pb(1) by (simp only: of_int_0_le_iff)
  ultimately have "(of_int (t * s) :: rat) / of_int r \<le> of_int (t * s) / 1"
    by (intro divide_left_mono) simp_all
  then have "x \<le> of_int (t * s)" by (simp add: x_def)
  with ts have "x < 2 ^ 53" by linarith
  from fl_ge_floor[OF xpos this] obtain y where y: "fl x = Some y" "of_int \<lfloor>x\<rfloor> \<le> y" by auto
  have "(2::rat) ^ 31 = of_int (2 ^ 31)" by simp
  also have "\<dots> \<le> of_int \<lfloor>x\<rfloor>" using assms(7) fx by (simp only: of_int_le_iff)
  also have "\<dots> \<le> of_int \<lfloor>y\<rfloor>" using y(2) by (simp add: le_floor_iff)
  finally show ?thesis using y(1) by (simp add: q dfloor_def x_def)
qed

lemma double_INT32_MAX: "double_of_int INT32_MAX = Some 2147483647"
  using double_of_int_exact[of INT32_MAX] by (simp add: INT32_MAX_def)

lemma sample_offset_exact:
  assumes "0 \<le> t" "t \<le> INT32_MAX" "0 \<le> s" "s < 2 ^ 16" "0 < r" "r \<le> 2 ^ 22"
  shows "sample_offset t s r =
    (if (t * s) div r \<le> INT32_MAX then Inr ((t * s) div r) else Inl OffsetRange)"
proof -
  have t: "t < 2 ^ 31" using assms(2) by (simp add: INT32_MAX_def)
  have k0: "0 \<le> (t * s) div r" using assms by (simp add: pos_imp_zdiv_nonneg_iff)
  show ?thesis
  proof (cases "(t * s) div r \<le> INT32_MAX")
    case True
    then have "(t * s) div r < 2 ^ 31" by (simp add: INT32_MAX_def)
    from rate_convert_in_range[OF assms(1) t assms(3-6) this]
    have rc: "rate_convert t s r = Some (of_int ((t * s) div r))" .
    have "(of_int ((t * s) div r) :: rat) \<le> of_int INT32_MAX" using True by (simp only: of_int_le_iff)
    then have "(of_int ((t * s) div r) :: rat) \<le> 2147483647" by (simp add: INT32_MAX_def)
    then show ?thesis using True k0
      by (simp add: sample_offset_def rc dle_def double_INT32_MAX int32_of_double_def)
  next
    case False
    then have big: "2 ^ 31 \<le> (t * s) div r" by (simp add: INT32_MAX_def)
    have "r < 2 ^ 31" using assms(6) by simp
    from rate_convert_too_big[OF assms(1) t assms(3-5) this big]
    obtain v where v: "rate_convert t s r = Some v" "2 ^ 31 \<le> v" by auto
    from v(2) have "\<not> v \<le> 2147483647" by simp
    then show ?thesis using False
      by (simp add: sample_offset_def v(1) dle_def double_INT32_MAX)
  qed
qed

lemma ramp_position_bound:
  fixes T s r :: int
  assumes "0 \<le> T" "T \<le> r" "0 < r" "0 \<le> s"
  shows "(T * s) div r \<le> s"
proof -
  have "T * s \<le> r * s" using assms by (intro mult_right_mono) auto
  then have "(T * s) div r \<le> (r * s) div r" by (rule zdiv_mono1) (use assms in simp)
  then show ?thesis using assms by simp
qed


text \<open>
  Claim C1. For every control rate \<open>r\<close> in \<open>[1, 1024]\<close> and output rate \<open>s\<close> of 44100 or
  48000, the conversion applied to the tick counts \<open>0, 1, \<dots>, r\<close> succeeds at every tick
  (no numeric or range error), the positions it yields are \<open>(T * s) div r\<close>, they
  form a non-decreasing sequence, and the position at tick \<open>r\<close> is exactly \<open>s\<close>.
\<close>

theorem rate_converter_ramp:
  assumes "1 \<le> r" "r \<le> 1024" "s = 44100 \<or> s = 48000"
  shows "\<exists>ps. map (\<lambda>T. sample_offset T s r) [0..r] = map Inr ps
           \<and> ps = map (\<lambda>T. (T * s) div r) [0..r]
           \<and> sorted ps \<and> last ps = s"
proof -
  define ps where "ps = map (\<lambda>T. (T * s) div r) [0..r]"
  have s: "0 \<le> s" "s < 2 ^ 16" "s \<le> INT32_MAX" using assms(3) by (auto simp: INT32_MAX_def)
  have r: "0 < r" "r \<le> 2 ^ 22" "r \<le> INT32_MAX" using assms(1,2) by (simp_all add: INT32_MAX_def)
  have each: "sample_offset T s r = Inr ((T * s) div r)" if "0 \<le> T" "T \<le> r" for T
  proof -
    have "(T * s) div r \<le> s" using that r(1) s(1) by (intro ramp_position_bound)
    then have "(T * s) div r \<le> INT32_MAX" using s(3) by linarith
    moreover have "T \<le> INT32_MAX" using that(2) r(3) by linarith
    ultimately show ?thesis
      using sample_offset_exact[OF that(1) _ s(1,2) r(1,2)] by simp
  qed
  have m: "map (\<lambda>T. sample_offset T s r) [0..r] = map Inr ps"
    unfolding ps_def by (simp add: each)
  have mono: "(T * s) div r \<le> (U * s) div r" if "T \<le> U" for T U
    using that s(1) r(1) by (intro zdiv_mono1 mult_right_mono) auto
  have "sorted ps" unfolding ps_def sorted_map
    by (rule sorted_wrt_mono_rel[OF _ sorted_upto]) (simp add: mono)
  moreover have "last ps = s" using r(1) by (simp add: ps_def last_map upto_rec2)
  ultimately show ?thesis using m ps_def by blast
qed

theorem rate_converter_ramp_witness:
  "map (\<lambda>T. sample_offset T 44100 4) [0..4] = map Inr [0, 11025, 22050, 33075, 44100]"
  using rate_converter_ramp[of 4 44100] by (simp add: upto_rec1)


subsection \<open>The sample buffer\<close>

text \<open>\<^verbatim>\<open>flushBuffer\<close>: write the buffered samples and count them, watching for overflow.\<close>

definition flushBuffer :: "state \<Rightarrow> (error + unit) \<times> state" where
  "flushBuffer st =
     (if 0 < s_fill st then
        (let st1 = st\<lparr>events := events st @ [WavSamples (s_fill st)]\<rparr> in
         if s_total st1 \<le> INT32_MAX - s_fill st1
         then (Inr (), st1\<lparr>s_total := s_total st1 + s_fill st1, s_fill := 0\<rparr>)
         else (Inl SampleOverflow, st1))
      else (Inr (), st))"

text \<open>
  The loop of \<^verbatim>\<open>computeSamples\<close>: flush a full buffer, generate as many samples as fit
  (at most the remaining request), repeat until the request is served.
\<close>

function computeSamples_loop :: "int \<Rightarrow> state \<Rightarrow> (error + unit) \<times> state" where
  "computeSamples_loop count st =
     (if 0 < count then
        (case (if BUFFER_SAMPLES \<le> s_fill st then flushBuffer st else (Inr (), st)) of
           (Inl e, st1) \<Rightarrow> (Inl e, st1)
         | (Inr u, st1) \<Rightarrow>
             (let work = (if count < BUFFER_SAMPLES - s_fill st1 then count
                          else BUFFER_SAMPLES - s_fill st1)
              in computeSamples_loop (count - work)
                   (st1\<lparr>events := events st1 @ [OplGenerate work],
                        s_fill := s_fill st1 + work\<rparr>)))
      else (Inr (), st))"
  by pat_completeness auto
termination
  by (relation "measure (\<lambda>(count, st). nat count)")
     (auto simp: flushBuffer_def Let_def BUFFER_SAMPLES_def split: if_splits)

declare computeSamples_loop.simps [simp del]

definition computeSamples :: "int \<Rightarrow> state \<Rightarrow> (error + unit) \<times> state" where
  "computeSamples count st =
     (if count < 1 then (Inl BadState, st) else computeSamples_loop count st)"

text \<open>
  \<^verbatim>\<open>finishWAV\<close>: flush the buffer, compute the two sizes with their overflow checks and
  patch them into the header.
\<close>

definition finishWAV :: "state \<Rightarrow> (error + unit) \<times> state" where
  "finishWAV st =
     (case flushBuffer st of
        (Inl e, st1) \<Rightarrow> (Inl e, st1)
      | (Inr u, st1) \<Rightarrow>
          (if s_total st1 \<le> INT32_MAX div 2 then
             (let data_size = s_total st1 * 2 in
              if data_size \<le> INT32_MAX - 36
              then (Inr (), st1\<lparr>events := events st1 @ [WavSizes (data_size + 36) data_size]\<rparr>)
              else (Inl FileSizeOverflow, st1))
           else (Inl FileSizeOverflow, st1)))"

subsection \<open>Strings and token parsers\<close>

text \<open>
  A C string is the list of its bytes before the terminating nul; a pointer into the
  line buffer is the remaining suffix. Reading the byte a pointer designates gives 0 at
  the terminator. The line buffer is zero-filled before each read, so indexing it beyond
  the line also gives 0.
\<close>

definition deref :: "byte list \<Rightarrow> byte" where
  "deref pstr = (case pstr of [] \<Rightarrow> 0 | c # cs \<Rightarrow> c)"

definition byte_at :: "byte list \<Rightarrow> nat \<Rightarrow> byte" where
  "byte_at buf i = (if i < length buf then buf ! i else 0)"

fun isBlankStr :: "byte list \<Rightarrow> bool" where
  "isBlankStr [] = True"
| "isBlankStr (c # cs) = (if c \<noteq> 0x20 \<and> c \<noteq> 0x09 then False else isBlankStr cs)"

text \<open>The loop that skips tabs and spaces at the start of both parsers.\<close>

fun skip_blanks :: "byte list \<Rightarrow> byte list" where
  "skip_blanks [] = []"
| "skip_blanks (c # cs) = (if c = 0x09 \<or> c = 0x20 then skip_blanks cs else c # cs)"

text \<open>The value of a base-16 digit, in the order the source tests the three ranges.\<close>

definition hex_digit :: "byte \<Rightarrow> int option" where
  "hex_digit c =
     (if 0x30 \<le> c \<and> c \<le> 0x39 then Some (uint c - 0x30)
      else if 0x41 \<le> c \<and> c \<le> 0x46 then Some (uint c - 0x41 + 10)
      else if 0x61 \<le> c \<and> c \<le> 0x66 then Some (uint c - 0x61 + 10)
      else None)"

text \<open>
  One round of the two-round loop of \<^verbatim>\<open>parseByte\<close>:
  \<^verbatim>\<open>result = (uint8_t) ((result << 4) + digit)\<close>, then \<^verbatim>\<open>pstr++\<close>.
\<close>

definition parseByte_digit :: "int \<Rightarrow> byte \<times> byte list \<Rightarrow> error + byte \<times> byte list" where
  "parseByte_digit lc rp =
     (case rp of (result, pstr) \<Rightarrow>
        (case hex_digit (deref pstr) of
           None \<Rightarrow> Inl (ByteParseFailed lc)
         | Some d \<Rightarrow> Inr (word_of_int (uint result * 16 + d), tl pstr)))"

definition parseByte :: "int \<Rightarrow> byte list \<Rightarrow> error + byte \<times> byte list" where
  "parseByte lc pstr =
     (case parseByte_digit lc (0, skip_blanks pstr) of
        Inl e \<Rightarrow> Inl e
      | Inr rp1 \<Rightarrow>
          (case parseByte_digit lc rp1 of
             Inl e \<Rightarrow> Inl e
           | Inr (result, p) \<Rightarrow>
               if hex_digit (deref p) \<noteq> None then Inl (ByteParseFailed lc)
               else Inr (result, p)))"

text \<open>The digit loop of \<^verbatim>\<open>parseInt\<close>, with its two overflow checks.\<close>

fun parseInt_loop :: "int \<Rightarrow> int \<Rightarrow> byte list \<Rightarrow> error + int \<times> byte list" where
  "parseInt_loop lc result [] = Inr (result, [])"
| "parseInt_loop lc result (c # cs) =
     (if 0x30 \<le> c \<and> c \<le> 0x39 then
        (let d = uint c - 0x30 in
         if result \<le> INT32_MAX div 10 then
           (if result * 10 \<le> INT32_MAX - d
            then parseInt_loop lc (result * 10 + d) cs
            else Inl (IntOverflow lc))
         else Inl (IntOverflow lc))
      else Inr (result, c # cs))"

definition parseInt :: "int \<Rightarrow> byte list \<Rightarrow> error + int \<times> byte list" where
  "parseInt lc pstr =
     (let p = skip_blanks pstr in
      if deref p < 0x30 \<or> 0x39 < deref p then Inl (IntParseFailed lc)
      else parseInt_loop lc 0 p)"

subsection \<open>The line reader\<close>

text \<open>
  The \<^verbatim>\<open>while (1)\<close> loop of \<^verbatim>\<open>readInput\<close>. \<open>c\<close> is the character just read, \<open>inp\<close>
  what is left of standard input, \<open>buf\<close> the line so far (\<^verbatim>\<open>written\<close> is its length).
  The result is the outcome, the line buffer and the input left.
\<close>

fun readInput_loop ::
  "int \<Rightarrow> byte list \<Rightarrow> byte \<Rightarrow> byte list \<Rightarrow> (error + unit) \<times> byte list \<times> byte list" where
  "readInput_loop lc buf c inp =
     (if c = 0x0D then
        (case inp of
           [] \<Rightarrow> (Inl (CRWithoutLF lc), buf, [])
         | d # ds \<Rightarrow> if d \<noteq> 0x0A then (Inl (CRWithoutLF lc), buf, ds) else (Inr (), buf, ds))
      else if c = 0x0A then (Inr (), buf, inp)
      else if c \<noteq> 0x09 \<and> (c < 0x20 \<or> 0x7E < c) then (Inl (InvalidChar lc), buf, inp)
      else if LINE_MAXIMUM \<le> length buf then (Inl LineTooLongUB, buf, inp)
      else
        (case inp of
           [] \<Rightarrow> (Inr (), buf @ [c], [])
         | d # ds \<Rightarrow> readInput_loop lc (buf @ [c]) d ds))"

declare readInput_loop.simps [simp del]

text \<open>\<^verbatim>\<open>readInput\<close>: \<open>Inr False\<close> at the end of input, \<open>Inr True\<close> after reading a line.\<close>

definition readInput :: "state \<Rightarrow> (error + bool) \<times> state" where
  "readInput st =
     (case input st of
        [] \<Rightarrow> (Inr False, st)
      | c # cs \<Rightarrow>
          if line_count st < INT32_MAX then
            (let lc = line_count st + 1 in
             case readInput_loop lc [] c cs of
               (Inl e, buf, rest) \<Rightarrow>
                 (Inl e, st\<lparr>input := rest, line_count := lc, l_buf := buf\<rparr>)
             | (Inr u, buf, rest) \<Rightarrow>
                 (Inr True, st\<lparr>input := rest, line_count := lc, l_buf := buf\<rparr>))
          else (Inl TooManyLines, st\<lparr>input := cs\<rparr>))"

text \<open>
  \<^verbatim>\<open>readHeader\<close>. \<^verbatim>\<open>memcmp(l_buf, "OPL2", 4)\<close> compares the first four bytes of the
  zero-filled buffer; the tag has no zero byte, so the test is that the line starts with
  the four bytes of the tag.
\<close>

definition readHeader :: "state \<Rightarrow> (error + int) \<times> state" where
  "readHeader st =
     (case readInput st of
        (Inl e, st1) \<Rightarrow> (Inl e, st1)
      | (Inr got, st1) \<Rightarrow>
          if \<not> got then (Inl HeaderMissing, st1)
          else if take 4 (l_buf st1) \<noteq> [0x4F, 0x50, 0x4C, 0x32] then (Inl HeaderNotOPL2, st1)
          else
            (case parseInt (line_count st1) (drop 4 (l_buf st1)) of
               Inl e \<Rightarrow> (Inl e, st1)
             | Inr (ctl_rate, pstr) \<Rightarrow>
                 if ctl_rate < 1 \<or> 1024 < ctl_rate then (Inl ControlRateRange, st1)
                 else if \<not> isBlankStr pstr then (Inl HeaderSyntax, st1)
                 else (Inr ctl_rate, st1)))"


subsection \<open>The main loop\<close>

text \<open>
  The body of the \<^verbatim>\<open>while (readInput())\<close> loop of \<^verbatim>\<open>main\<close> for the line now in the
  buffer. \<open>t\<close> and \<open>current\<close> are the local variables of \<^verbatim>\<open>main\<close>: the virtual clock
  and the sample position; their new values are returned.
\<close>

definition process_line ::
  "int \<Rightarrow> int \<Rightarrow> int \<Rightarrow> int \<Rightarrow> state \<Rightarrow> (error + int \<times> int) \<times> state" where
  "process_line sample_rate rate t current st =
     (let l = l_buf st; lc = line_count st in
      if byte_at l 0 = 0x27 \<or> isBlankStr l then (Inr (t, current), st)
      else if byte_at l 1 \<noteq> 0x20 \<and> byte_at l 1 \<noteq> 0x09 then (Inl (InvalidCommand lc), st)
      else if byte_at l 0 = 0x72 then
        (case parseByte lc (drop 1 l) of
           Inl e \<Rightarrow> (Inl e, st)
         | Inr (reg, p1) \<Rightarrow>
             (case parseByte lc p1 of
                Inl e \<Rightarrow> (Inl e, st)
              | Inr (val, p2) \<Rightarrow>
                  if \<not> isBlankStr p2 then (Inl (CommandSyntax lc), st)
                  else (Inr (t, current), st\<lparr>events := events st @ [OplWrite reg val]\<rparr>)))
      else if byte_at l 0 = 0x77 then
        (case parseInt lc (drop 1 l) of
           Inl e \<Rightarrow> (Inl e, st)
         | Inr (iv32, p1) \<Rightarrow>
             if \<not> isBlankStr p1 then (Inl (CommandSyntax lc), st)
             else if t \<le> INT32_MAX - iv32 then
               (case sample_offset (t + iv32) sample_rate rate of
                  Inl e \<Rightarrow> (Inl e, st)
                | Inr soi \<Rightarrow>
                    if soi \<le> current then (Inl NumericProblem, st)
                    else
                      (case computeSamples (soi - current) st of
                         (Inl e, st1) \<Rightarrow> (Inl e, st1)
                       | (Inr u, st1) \<Rightarrow> (Inr (t + iv32, soi), st1)))
             else (Inl TimeOverflow, st))
      else (Inl (InvalidCommand lc), st))"

lemma readInput_loop_shorter:
  "readInput_loop lc buf c inp = (res, buf', rest) \<Longrightarrow> length rest \<le> length inp"
proof (induction lc buf c inp rule: readInput_loop.induct)
  case (1 lc buf c inp)
  note P = "1.prems"[unfolded readInput_loop.simps[of lc buf c inp]]
  show ?case
  proof (cases inp)
    case Nil
    with P show ?thesis by (auto split: if_splits)
  next
    case (Cons d ds)
    show ?thesis
    proof (cases "c \<noteq> 0x0D \<and> c \<noteq> 0x0A \<and> \<not> (c \<noteq> 0x09 \<and> (c < 0x20 \<or> 0x7E < c))
                  \<and> \<not> LINE_MAXIMUM \<le> length buf")
      case True
      with P Cons have "readInput_loop lc (buf @ [c]) d ds = (res, buf', rest)"
        by simp
      with "1.IH"[of d ds] True Cons have "length rest \<le> length ds" by simp
      with Cons show ?thesis by simp
    next
      case False
      with P Cons show ?thesis by (auto split: if_splits)
    qed
  qed
qed

lemma readInput_consumes:
  assumes "readInput st = (Inr True, st1)"
  shows "length (input st1) < length (input st)"
proof (cases "input st")
  case Nil
  with assms show ?thesis by (simp add: readInput_def)
next
  case (Cons c cs)
  obtain res buf rest where l: "readInput_loop (line_count st + 1) [] c cs = (res, buf, rest)"
    by (cases "readInput_loop (line_count st + 1) [] c cs") auto
  have len: "length rest \<le> length cs" using l by (rule readInput_loop_shorter)
  have "input st1 = rest"
    using assms Cons l by (cases res) (auto simp: readInput_def Let_def split: if_splits)
  with len Cons show ?thesis by simp
qed

lemma flushBuffer_input: "flushBuffer st = (res, st1) \<Longrightarrow> input st1 = input st"
  by (auto simp: flushBuffer_def Let_def split: if_splits)

lemma computeSamples_loop_input:
  "computeSamples_loop count st = (res, st1) \<Longrightarrow> input st1 = input st"
proof (induction count st rule: computeSamples_loop.induct)
  case (1 count st)
  show ?case
  proof (cases "0 < count")
    case False
    with "1.prems" show ?thesis by (simp add: computeSamples_loop.simps[of count st])
  next
    case True
    obtain r0 s0 where f: "(if BUFFER_SAMPLES \<le> s_fill st then flushBuffer st else (Inr (), st)) = (r0, s0)"
      by (cases "if BUFFER_SAMPLES \<le> s_fill st then flushBuffer st else (Inr (), st)")
    have s0: "input s0 = input st" using f by (auto split: if_splits dest: flushBuffer_input)
    show ?thesis
    proof (cases r0)
      case (Inl e)
      with "1.prems" True f s0 show ?thesis by (simp add: computeSamples_loop.simps[of count st])
    next
      case (Inr u)
      define work where "work = (if count < BUFFER_SAMPLES - s_fill s0 then count
                          else BUFFER_SAMPLES - s_fill s0)"
      have "computeSamples_loop (count - work)
              (s0\<lparr>events := events s0 @ [OplGenerate work], s_fill := s_fill s0 + work\<rparr>) = (res, st1)"
        using "1.prems" True f Inr
        by (simp add: computeSamples_loop.simps[of count st] work_def Let_def)
      from "1.IH"[OF True f[symmetric] Inr work_def this] s0
      show ?thesis by simp
    qed
  qed
qed

lemma process_line_input:
  "process_line sample_rate rate t current st = (res, st1) \<Longrightarrow> input st1 = input st"
  by (auto simp: process_line_def computeSamples_def Let_def
           split: if_splits sum.splits prod.splits dest: computeSamples_loop_input)

text \<open>
  The loop of \<^verbatim>\<open>main\<close>: read a line, process it, until the input ends (the only
  successful end) or an error stops the program.
\<close>

function main_loop ::
  "int \<Rightarrow> int \<Rightarrow> int \<Rightarrow> int \<Rightarrow> state \<Rightarrow> (error + int \<times> int) \<times> state" where
  "main_loop sample_rate rate t current st =
     (case readInput st of
        (Inl e, st1) \<Rightarrow> (Inl e, st1)
      | (Inr got, st1) \<Rightarrow>
          if \<not> got then (Inr (t, current), st1)
          else
            (case process_line sample_rate rate t current st1 of
               (Inl e, st2) \<Rightarrow> (Inl e, st2)
             | (Inr (t', current'), st2) \<Rightarrow> main_loop sample_rate rate t' current' st2))"
  by pat_completeness auto
termination
proof (relation "measure (\<lambda>(sample_rate, rate, t, current, st). length (input st))",
    goal_cases)
  case 1
  show ?case by simp
next
  case (2 sample_rate rate t current st x y b xa ya ba xb yb)
  then have "readInput st = (Inr True, y)"
    and "process_line sample_rate rate t current y = (Inr ba, ya)"
    by simp_all
  then have "length (input ya) < length (input st)"
    using readInput_consumes[of st y] process_line_input[of sample_rate rate t current y "Inr ba" ya]
    by simp
  then show ?case by simp
qed

declare main_loop.simps [simp del]

text \<open>
  \<^verbatim>\<open>main\<close> of retro_opl after the argument count has been checked: \<open>arg\<close> is the
  sampling-rate argument, \<open>stdin\<close> the bytes of standard input.
\<close>

definition retro_opl :: "string \<Rightarrow> byte list \<Rightarrow> (error + unit) \<times> state" where
  "retro_opl arg stdin =
     (let st0 = \<lparr>input = stdin, line_count = 0, l_buf = [], s_total = 0, s_fill = 0,
                 events = []\<rparr> in
      if arg \<noteq> ''44100'' \<and> arg \<noteq> ''48000'' then (Inl UnsupportedRate, st0)
      else
        (let sample_rate = (if arg = ''44100'' then 44100 else 48000);
             st1 = st0\<lparr>events := events st0 @ [OplInit sample_rate]\<rparr> in
         case readHeader st1 of
           (Inl e, st2) \<Rightarrow> (Inl e, st2)
         | (Inr rate, st2) \<Rightarrow>
             (let st3 = st2\<lparr>events := events st2 @ [WavBegin sample_rate]\<rparr> in
              case main_loop sample_rate rate 0 0 st3 of
                (Inl e, st4) \<Rightarrow> (Inl e, st4)
              | (Inr tc, st4) \<Rightarrow> finishWAV (st4\<lparr>events := events st4 @ [OplFinish]\<rparr>))))"


subsection \<open>Script text\<close>

text \<open>The bytes of a text, to write scripts as strings.\<close>

definition bytes :: "string \<Rightarrow> byte list" where
  "bytes s = map of_char s"

text \<open>
  Classes of characters as the source tests them: a blank is a space or a tab, a line
  may hold tabs and the printing characters of US-ASCII.
\<close>

definition is_blank :: "byte \<Rightarrow> bool" where
  "is_blank c = (c = 0x20 \<or> c = 0x09)"

definition is_digit :: "byte \<Rightarrow> bool" where
  "is_digit c = (0x30 \<le> c \<and> c \<le> 0x39)"

definition line_char :: "byte \<Rightarrow> bool" where
  "line_char c = (c = 0x09 \<or> (0x20 \<le> c \<and> c \<le> 0x7E))"

text \<open>The number a sequence of decimal digits denotes.\<close>

definition dec_value :: "byte list \<Rightarrow> int" where
  "dec_value ds = foldl (\<lambda>a c. a * 10 + (uint c - 0x30)) 0 ds"


subsection \<open>What the parsers and the line reader compute\<close>

lemma isBlankStr_iff: "isBlankStr s = list_all is_blank s"
  by (induction s) (auto simp: is_blank_def)

lemma skip_blanks_append: "list_all is_blank ws \<Longrightarrow> skip_blanks (ws @ s) = skip_blanks s"
  by (induction ws) (auto simp: is_blank_def)

lemma skip_blanks_id: "\<not> is_blank (deref s) \<Longrightarrow> skip_blanks s = s"
  by (cases s) (auto simp: is_blank_def deref_def)

lemma digit_not_blank: "is_digit c \<Longrightarrow> \<not> is_blank c"
  by (auto simp: is_digit_def is_blank_def)

lemma digit_value_bounds: "is_digit c \<Longrightarrow> 0 \<le> uint c - 0x30 \<and> uint c - 0x30 \<le> 9"
  by (simp add: is_digit_def word_le_def)

lemma dec_value_snoc: "dec_value (ds @ [c]) = dec_value ds * 10 + (uint c - 0x30)"
  by (simp add: dec_value_def)

lemma foldl_dec_acc:
  "foldl (\<lambda>a c. a * 10 + (uint c - 0x30)) acc ds = acc * 10 ^ length ds + dec_value ds"
proof (induction ds rule: rev_induct)
  case Nil
  show ?case by (simp add: dec_value_def)
next
  case (snoc c ds)
  have "foldl (\<lambda>a c. a * 10 + (uint c - 0x30)) acc (ds @ [c])
      = foldl (\<lambda>a c. a * 10 + (uint c - 0x30)) acc ds * 10 + (uint c - 0x30)" by simp
  also have "\<dots> = (acc * 10 ^ length ds + dec_value ds) * 10 + (uint c - 0x30)"
    by (simp only: snoc.IH)
  also have "\<dots> = acc * 10 ^ length (ds @ [c]) + dec_value (ds @ [c])"
    by (simp add: dec_value_snoc algebra_simps)
  finally show ?case .
qed

lemma dec_value_Cons: "dec_value (c # ds) = (uint c - 0x30) * 10 ^ length ds + dec_value ds"
  using foldl_dec_acc[of "uint c - 0x30" ds] by (simp add: dec_value_def)

lemma dec_value_nonneg: "list_all is_digit ds \<Longrightarrow> 0 \<le> dec_value ds"
proof (induction ds rule: rev_induct)
  case Nil
  show ?case by (simp add: dec_value_def)
next
  case (snoc c ds)
  then show ?case using digit_value_bounds[of c] by (simp add: dec_value_snoc)
qed

text \<open>The digit loop: the value if it fits 32 bits, the overflow error otherwise.\<close>

lemma parseInt_loop_digits:
  assumes "list_all is_digit ds" "\<not> is_digit (deref rest)" "0 \<le> acc" "acc \<le> INT32_MAX"
  shows "parseInt_loop lc acc (ds @ rest) =
    (if acc * 10 ^ length ds + dec_value ds \<le> INT32_MAX
     then Inr (acc * 10 ^ length ds + dec_value ds, rest) else Inl (IntOverflow lc))"
  using assms
proof (induction ds arbitrary: acc)
  case Nil
  then show ?case
    by (cases rest) (auto simp: dec_value_def deref_def is_digit_def)
next
  case (Cons c ds)
  define d where "d = uint c - 0x30"
  have c: "0x30 \<le> c \<and> c \<le> 0x39" using Cons.prems(1) by (simp add: is_digit_def)
  have d: "0 \<le> d" "d \<le> 9" using Cons.prems(1) digit_value_bounds[of c] by (simp_all add: d_def)
  have ds: "list_all is_digit ds" using Cons.prems(1) by simp
  have tot: "acc * 10 ^ length (c # ds) + dec_value (c # ds)
           = (acc * 10 + d) * 10 ^ length ds + dec_value ds"
    by (simp add: dec_value_Cons d_def algebra_simps)
  show ?case
  proof (cases "acc \<le> INT32_MAX div 10 \<and> acc * 10 \<le> INT32_MAX - d")
    case True
    have "0 \<le> acc * 10 + d" "acc * 10 + d \<le> INT32_MAX" using True Cons.prems(3) d by simp_all
    from Cons.IH[OF ds Cons.prems(2) this]
    have "parseInt_loop lc (acc * 10 + d) (ds @ rest) =
      (if (acc * 10 + d) * 10 ^ length ds + dec_value ds \<le> INT32_MAX
       then Inr ((acc * 10 + d) * 10 ^ length ds + dec_value ds, rest) else Inl (IntOverflow lc))" .
    then show ?thesis using True c unfolding tot by (simp add: d_def Let_def)
  next
    case False
    then have big: "INT32_MAX < acc * 10 + d" using d(1) by (auto simp: INT32_MAX_def)
    have "(1::int) \<le> 10 ^ length ds" by simp
    then have "(acc * 10 + d) * 1 \<le> (acc * 10 + d) * 10 ^ length ds"
      using Cons.prems(3) d by (intro mult_left_mono) auto
    then have "acc * 10 + d \<le> (acc * 10 + d) * 10 ^ length ds" by simp
    then have "INT32_MAX < (acc * 10 + d) * 10 ^ length ds + dec_value ds"
      using big dec_value_nonneg[OF ds] by linarith
    then have "\<not> acc * 10 ^ length (c # ds) + dec_value (c # ds) \<le> INT32_MAX"
      unfolding tot by simp
    then show ?thesis using False c by (auto simp: d_def Let_def)
  qed
qed

lemma parseInt_digits:
  assumes "list_all is_blank ws" "ds \<noteq> []" "list_all is_digit ds" "\<not> is_digit (deref rest)"
  shows "parseInt lc (ws @ ds @ rest) =
    (if dec_value ds \<le> INT32_MAX then Inr (dec_value ds, rest) else Inl (IntOverflow lc))"
proof -
  obtain c cs where ds: "ds = c # cs" using assms(2) by (cases ds) auto
  have c: "is_digit c" using assms(3) ds by simp
  have "skip_blanks (ws @ ds @ rest) = skip_blanks (ds @ rest)"
    using assms(1) by (rule skip_blanks_append)
  also have "\<dots> = ds @ rest" using c digit_not_blank[of c] by (simp add: ds is_blank_def)
  finally have sk: "skip_blanks (ws @ ds @ rest) = ds @ rest" .
  have "deref (ds @ rest) = c" by (simp add: ds deref_def)
  then have "\<not> (deref (ds @ rest) < 0x30 \<or> 0x39 < deref (ds @ rest))"
    using c by (auto simp: is_digit_def)
  then show ?thesis
    using parseInt_loop_digits[OF assms(3,4), of 0 lc]
    by (simp add: parseInt_def sk Let_def INT32_MAX_def)
qed

text \<open>
  Reading a well-formed line: its characters are tabs or printing characters, it is at
  most 1023 bytes long and ends with a line feed.
\<close>

lemma line_char_not_break: "line_char c \<Longrightarrow> c \<noteq> 0x0D \<and> c \<noteq> 0x0A"
  by (auto simp: line_char_def)

lemma line_char_valid: "line_char c \<Longrightarrow> \<not> (c \<noteq> 0x09 \<and> (c < 0x20 \<or> 0x7E < c))"
  by (auto simp: line_char_def)

lemma readInput_loop_line:
  assumes "list_all line_char (c # l)" "length buf + length (c # l) \<le> LINE_MAXIMUM"
  shows "readInput_loop lc buf c (l @ 0x0A # rest) = (Inr (), buf @ c # l, rest)"
  using assms
proof (induction l arbitrary: c buf)
  case Nil
  then have c: "line_char c" and len: "\<not> LINE_MAXIMUM \<le> length buf" by simp_all
  show ?case using line_char_not_break[OF c] line_char_valid[OF c] len
    by (simp add: readInput_loop.simps[of lc buf c] readInput_loop.simps[of lc "buf @ [c]" "0x0A"])
next
  case (Cons d l)
  then have c: "line_char c" and len: "\<not> LINE_MAXIMUM \<le> length buf" by simp_all
  have "readInput_loop lc (buf @ [c]) d (l @ 0x0A # rest) = (Inr (), (buf @ [c]) @ d # l, rest)"
    using Cons.prems by (intro Cons.IH) simp_all
  then show ?case using line_char_not_break[OF c] line_char_valid[OF c] len
    by (simp add: readInput_loop.simps[of lc buf c])
qed

lemma readInput_line:
  assumes "input st = l @ 0x0A # rest" "list_all line_char l" "length l \<le> LINE_MAXIMUM"
    and "line_count st < INT32_MAX"
  shows "readInput st =
    (Inr True, st\<lparr>input := rest, line_count := line_count st + 1, l_buf := l\<rparr>)"
proof (cases l)
  case Nil
  then show ?thesis using assms(1,4)
    by (simp add: readInput_def readInput_loop.simps[of _ "[]" "0x0A"])
next
  case (Cons c l')
  have "readInput_loop (line_count st + 1) [] c (l' @ 0x0A # rest) = (Inr (), [] @ c # l', rest)"
    using assms(2,3) Cons by (intro readInput_loop_line) simp_all
  then show ?thesis using assms(1,4) Cons by (simp add: readInput_def Let_def)
qed

lemma bytes_simps:
  "bytes [] = []" "bytes (c # cs) = of_char c # bytes cs" "bytes (a @ b) = bytes a @ bytes b"
  by (simp_all add: bytes_def)



section \<open>The VGM converter (vgm2opl.c)\<close>

subsection \<open>Errors and output\<close>

text \<open>
  The diagnostics of the converter, each followed by \<^verbatim>\<open>raiseErr()\<close>. The last
  constructor is not a diagnostic: it marks a read outside the loaded data section,
  which is undefined behaviour in C. The model checks every read of the data section so
  that the absence of such reads is a property to prove and not an assumption.
\<close>

datatype vgm_error =
    BadRepeatCode           \<comment> \<open>Unrecognized repeat code\<close>
  | ReadByteFailed          \<comment> \<open>Failed to read byte!\<close>
  | NotVGM                  \<comment> \<open>Input file not a VGM file!\<close>
  | InvalidLoopOffset       \<comment> \<open>Invalid looping offset!\<close>
  | ImproperDataOffset      \<comment> \<open>Improper data offset and file length!\<close>
  | TooLarge                \<comment> \<open>VGM file is too large!\<close>
  | ReadFailed              \<comment> \<open>Read failed!\<close>
  | MissingParameters       \<comment> \<open>VGM opcode missing parameters!\<close>
  | UnsupportedOpcode byte  \<comment> \<open>Unsupported VGM opcode 0x..!\<close>
  | SampleCountOverflow     \<comment> \<open>Sample count overflow!\<close>
  | VgmNumericProblem       \<comment> \<open>Numeric problem!\<close>
  | ReadBeyondData

text \<open>The lines the converter prints to standard output.\<close>

datatype out_line =
    Header int              \<comment> \<open>\<^verbatim>\<open>OPL2 980\<close>\<close>
  | RegWrite byte byte      \<comment> \<open>\<^verbatim>\<open>r %02x %02x\<close>: address and value\<close>
  | Wait int                \<comment> \<open>\<^verbatim>\<open>w %ld\<close>: control cycles\<close>

definition MAX_DATA_SECTION :: "32 word" where
  "MAX_DATA_SECTION = 16 * 1024 * 1024"

subsection \<open>Header resolution\<close>

text \<open>
  \<^verbatim>\<open>readHead(offs)\<close>: seek, then read four bytes, least significant first. The read
  fails when the file ends before the fourth byte.
\<close>

definition readHead :: "byte list \<Rightarrow> nat \<Rightarrow> vgm_error + 32 word" where
  "readHead file offs =
     (if offs + 4 \<le> length file
      then Inr (ucast (file ! offs) OR push_bit 8 (ucast (file ! (offs + 1)))
                OR push_bit 16 (ucast (file ! (offs + 2)))
                OR push_bit 24 (ucast (file ! (offs + 3))))
      else Inl ReadByteFailed)"

text \<open>
  What header resolution computes: the file length, the absolute offset of the data
  section, the absolute loop offset as it stands when it is checked (\<open>loop_abs\<close>), the
  loop offset relative to the data section (the final value of \<^verbatim>\<open>loop_offs\<close>) and the
  length of the data section. All are \<^verbatim>\<open>uint32_t\<close>, whose arithmetic wraps.
\<close>

record vgm_header =
  file_len :: "32 word"
  data_offs :: "32 word"
  loop_abs :: "32 word"
  loop_offs :: "32 word"
  data_len :: "32 word"

text \<open>The loop offset from its header field, zero when there is none.\<close>

definition loop_offset_field :: "32 word \<Rightarrow> 32 word" where
  "loop_offset_field f = (let l = f + 0x1c in if l \<le> 0x1c then 0 else l)"

text \<open>The data offset from its header field (read only for version 1.50 and later).\<close>

definition data_offset_field :: "32 word \<Rightarrow> 32 word" where
  "data_offset_field f = (let d = f + 0x34 in if d \<le> 52 then 0x40 else d)"

text \<open>The checks on the offsets once they are known.\<close>

definition check_offsets :: "32 word \<Rightarrow> 32 word \<Rightarrow> 32 word \<Rightarrow> vgm_error + vgm_header" where
  "check_offsets flen doffs loffs0 =
     (let loffs = (if loffs0 \<le> 0 then doffs else loffs0) in
      if loffs < doffs \<or> flen \<le> loffs then Inl InvalidLoopOffset
      else if flen \<le> doffs then Inl ImproperDataOffset
      else if MAX_DATA_SECTION < flen - doffs then Inl TooLarge
      else Inr \<lparr>file_len = flen, data_offs = doffs, loop_abs = loffs,
                loop_offs = loffs - doffs, data_len = flen - doffs\<rparr>)"

definition resolve_header :: "byte list \<Rightarrow> vgm_error + vgm_header" where
  "resolve_header file =
     (case readHead file 0 of
        Inl e \<Rightarrow> Inl e
      | Inr magic \<Rightarrow>
          if magic \<noteq> 0x206d6756 then Inl NotVGM
          else
            (case readHead file 0x08 of
               Inl e \<Rightarrow> Inl e
             | Inr file_ver \<Rightarrow>
                 (case readHead file 0x04 of
                    Inl e \<Rightarrow> Inl e
                  | Inr lenf \<Rightarrow>
                      (case readHead file 0x1c of
                         Inl e \<Rightarrow> Inl e
                       | Inr loopf \<Rightarrow>
                           if 0x150 \<le> file_ver then
                             (case readHead file 0x34 of
                                Inl e \<Rightarrow> Inl e
                              | Inr dataf \<Rightarrow>
                                  check_offsets (lenf + 4) (data_offset_field dataf)
                                    (loop_offset_field loopf))
                           else check_offsets (lenf + 4) 0x40 (loop_offset_field loopf)))))"

text \<open>Loading the data section: the read fails when the file is shorter than declared.\<close>

definition load_data :: "byte list \<Rightarrow> vgm_header \<Rightarrow> vgm_error + byte list" where
  "load_data file h =
     (let d = take (unat (data_len h)) (drop (unat (data_offs h)) file) in
      if length d \<noteq> unat (data_len h) then Inl ReadFailed else Inr d)"

subsection \<open>The event walk\<close>

text \<open>The local variables of \<^verbatim>\<open>main\<close> that the walk updates, and the lines printed so far.\<close>

record vgm_state =
  wait_cmd :: bool
  wait_req :: int
  samp_offs :: int
  ctl_offs :: int
  out :: "out_line list"

text \<open>
  A read of the data section at \<^verbatim>\<open>pd[i]\<close>. \<open>pd\<close> is the part of the data section from
  the pointer to its end, so that \<^verbatim>\<open>data_len\<close> is its length.
\<close>

definition data_byte :: "byte list \<Rightarrow> nat \<Rightarrow> vgm_error + byte" where
  "data_byte pd i = (if i < length pd then Inr (pd ! i) else Inl ReadBeyondData)"

text \<open>
  The position at the control rate of 980 for a sample offset at the VGM rate of 44100,
  with the range check of the converter.
\<close>

definition control_offset :: "int \<Rightarrow> vgm_error + int" where
  "control_offset samp =
     (let f = rate_convert samp 980 44100 in
      if \<not> (dle (Some 0) f \<and> dle f (double_of_int INT32_MAX)) then Inl VgmNumericProblem
      else Inr (int32_of_double f))"

text \<open>
  The opcode dispatch at the head of the loop body. The result is the state and the
  pointer after the operands have been skipped, \<open>None\<close> for the end marker (the
  \<^verbatim>\<open>break\<close>), or the error.
\<close>

definition dispatch ::
  "vgm_state \<Rightarrow> byte list \<Rightarrow> (vgm_error + (byte list) option) \<times> vgm_state" where
  "dispatch st pd =
     (case data_byte pd 0 of
        Inl e \<Rightarrow> (Inl e, st)
      | Inr opc \<Rightarrow>
          if opc = 0x66 then (Inr None, st)
          else if 0x70 \<le> opc \<and> opc \<le> 0x7f then
            (Inr (Some pd), st\<lparr>wait_cmd := True, wait_req := (uint opc - 0x70) + 1\<rparr>)
          else if opc = 0x63 then (Inr (Some pd), st\<lparr>wait_cmd := True, wait_req := 882\<rparr>)
          else if opc = 0x62 then (Inr (Some pd), st\<lparr>wait_cmd := True, wait_req := 735\<rparr>)
          else if opc = 0x61 then
            (if length pd < 3 then (Inl MissingParameters, st)
             else
               (case data_byte pd 1 of
                  Inl e \<Rightarrow> (Inl e, st)
                | Inr b1 \<Rightarrow>
                    (case data_byte pd 2 of
                       Inl e \<Rightarrow> (Inl e, st)
                     | Inr b2 \<Rightarrow>
                         (Inr (Some (drop 2 pd)),
                          st\<lparr>wait_cmd := True,
                             wait_req := uint b1 OR push_bit 8 (uint b2)\<rparr>))))
          else if opc = 0x5a then
            (let st1 = st\<lparr>wait_cmd := False\<rparr> in
             if length pd < 3 then (Inl MissingParameters, st1)
             else
               (case data_byte pd 1 of
                  Inl e \<Rightarrow> (Inl e, st1)
                | Inr b1 \<Rightarrow>
                    (case data_byte pd 2 of
                       Inl e \<Rightarrow> (Inl e, st1)
                     | Inr b2 \<Rightarrow>
                         (Inr (Some (drop 2 pd)),
                          st1\<lparr>out := out st1 @ [RegWrite b1 b2]\<rparr>))))
          else (Inl (UnsupportedOpcode opc), st))"

text \<open>
  The rest of the loop body: a request below one is dropped; otherwise the sample
  offset advances (overflow checked), the control position is recomputed and, when it
  is ahead of the current one, a wait for the difference is printed.
\<close>

definition handle_wait :: "vgm_state \<Rightarrow> (vgm_error + unit) \<times> vgm_state" where
  "handle_wait st =
     (let st1 = (if wait_cmd st \<and> wait_req st < 1 then st\<lparr>wait_cmd := False\<rparr> else st) in
      if wait_cmd st1 then
        (if samp_offs st1 \<le> INT32_MAX - wait_req st1 then
           (let st2 = st1\<lparr>samp_offs := samp_offs st1 + wait_req st1\<rparr> in
            case control_offset (samp_offs st2) of
              Inl e \<Rightarrow> (Inl e, st2)
            | Inr new_ctl \<Rightarrow>
                if ctl_offs st2 < new_ctl
                then (Inr (), st2\<lparr>out := out st2 @ [Wait (new_ctl - ctl_offs st2)],
                                  ctl_offs := new_ctl\<rparr>)
                else (Inr (), st2))
         else (Inl SampleCountOverflow, st1))
      else (Inr (), st1))"

text \<open>One round of the \<^verbatim>\<open>while (data_len > 0)\<close> loop, ending with \<^verbatim>\<open>pd++\<close>.\<close>

definition decode_step ::
  "vgm_state \<Rightarrow> byte list \<Rightarrow> (vgm_error + (byte list) option) \<times> vgm_state" where
  "decode_step st pd =
     (case dispatch st pd of
        (Inl e, st1) \<Rightarrow> (Inl e, st1)
      | (Inr None, st1) \<Rightarrow> (Inr None, st1)
      | (Inr (Some pd1), st1) \<Rightarrow>
          (case handle_wait st1 of
             (Inl e, st2) \<Rightarrow> (Inl e, st2)
           | (Inr u, st2) \<Rightarrow> (Inr (Some (tl pd1)), st2)))"

lemma decode_step_shorter:
  "decode_step st pd = (Inr (Some rest), st') \<Longrightarrow> pd \<noteq> [] \<Longrightarrow> length rest < length pd"
  by (auto simp: decode_step_def dispatch_def data_byte_def Let_def
           split: if_splits sum.splits prod.splits option.splits)

text \<open>One pass over the data from the pointer \<open>pd\<close>.\<close>

function decode_pass :: "vgm_state \<Rightarrow> byte list \<Rightarrow> (vgm_error + unit) \<times> vgm_state" where
  "decode_pass st pd =
     (if 0 < length pd then
        (case decode_step st pd of
           (Inl e, st1) \<Rightarrow> (Inl e, st1)
         | (Inr None, st1) \<Rightarrow> (Inr (), st1)
         | (Inr (Some rest), st1) \<Rightarrow> decode_pass st1 rest)
      else (Inr (), st))"
  by pat_completeness auto
termination
proof (relation "measure (\<lambda>(st, pd). length pd)", goal_cases)
  case 1
  show ?case by simp
next
  case (2 st pd x y b z)
  then have "decode_step st pd = (Inr (Some z), y)" "pd \<noteq> []" by simp_all
  then show ?case using decode_step_shorter by simp
qed

declare decode_pass.simps [simp del]

text \<open>
  The \<^verbatim>\<open>for (i = 0; i < rep_count; i++)\<close> loop: every pass starts at the beginning of the
  data, the passes after the first one \<open>loop_offs\<close> bytes further.
\<close>

function passes ::
  "int \<Rightarrow> int \<Rightarrow> byte list \<Rightarrow> nat \<Rightarrow> vgm_state \<Rightarrow> (vgm_error + unit) \<times> vgm_state" where
  "passes i rep_count pData loffs st =
     (if i < rep_count then
        (case decode_pass st (if 0 < i then drop loffs pData else pData) of
           (Inl e, st1) \<Rightarrow> (Inl e, st1)
         | (Inr u, st1) \<Rightarrow> passes (i + 1) rep_count pData loffs st1)
      else (Inr (), st))"
  by pat_completeness auto
termination
  by (relation "measure (\<lambda>(i, rep_count, pData, loffs, st). nat (rep_count - i))") simp_all

declare passes.simps [simp del]

text \<open>The variables as \<^verbatim>\<open>main\<close> initialises them, with nothing printed.\<close>

definition vgm_init :: vgm_state where
  "vgm_init = \<lparr>wait_cmd = False, wait_req = 0, samp_offs = 0, ctl_offs = 0, out = []\<rparr>"

text \<open>
  \<^verbatim>\<open>main\<close> of vgm2opl after the argument count has been checked: \<open>arg\<close> is the repeat
  argument, \<open>file\<close> the bytes of the VGM file. The result holds the lines printed.
\<close>

definition vgm2opl :: "string \<Rightarrow> byte list \<Rightarrow> (vgm_error + unit) \<times> vgm_state" where
  "vgm2opl arg file =
     (if arg \<noteq> ''1'' \<and> arg \<noteq> ''2'' then (Inl BadRepeatCode, vgm_init)
      else
        (let rep_count = (if arg = ''1'' then 1 else 2) in
         case resolve_header file of
           Inl e \<Rightarrow> (Inl e, vgm_init)
         | Inr h \<Rightarrow>
             (case load_data file h of
                Inl e \<Rightarrow> (Inl e, vgm_init)
              | Inr pData \<Rightarrow>
                  passes 0 rep_count pData (unat (loop_offs h))
                    (vgm_init\<lparr>out := [Header 980]\<rparr>))))"

section \<open>Properties of the script interpreter\<close>

subsection \<open>The header line\<close>

lemma blank_line_char: "is_blank c \<Longrightarrow> line_char c"
  by (auto simp: is_blank_def line_char_def)

lemma digit_line_char: "is_digit c \<Longrightarrow> line_char c"
  by (auto simp: is_digit_def line_char_def word_le_def)

lemma list_all_implies: "list_all P xs \<Longrightarrow> (\<And>x. P x \<Longrightarrow> Q x) \<Longrightarrow> list_all Q xs"
  by (induction xs) auto

lemma tag_bytes: "bytes ''OPL2'' = [0x4F, 0x50, 0x4C, 0x32]"
  by (simp add: bytes_def)

lemma blank_not_digit_deref: "list_all is_blank tail \<Longrightarrow> \<not> is_digit (deref tail)"
  by (cases tail) (auto simp: deref_def is_digit_def is_blank_def)

text \<open>
  What \<^verbatim>\<open>readHeader\<close> does with a line that starts with the tag, goes on with blanks
  and decimal digits, and is well formed up to its line feed.
\<close>

lemma readHeader_line:
  assumes inp: "input st = bytes ''OPL2'' @ ws @ ds @ tail @ 0x0A # rest"
    and ws: "list_all is_blank ws" and ds: "ds \<noteq> []" "list_all is_digit ds"
    and tail: "list_all line_char tail" "\<not> is_digit (deref tail)"
    and len: "length (ws @ ds @ tail) \<le> 1019"
    and lc: "line_count st < INT32_MAX"
  shows "readHeader st =
    (let st1 = st\<lparr>input := rest, line_count := line_count st + 1,
                    l_buf := bytes ''OPL2'' @ ws @ ds @ tail\<rparr> in
     if INT32_MAX < dec_value ds then (Inl (IntOverflow (line_count st + 1)), st1)
     else if dec_value ds < 1 \<or> 1024 < dec_value ds then (Inl ControlRateRange, st1)
     else if \<not> isBlankStr tail then (Inl HeaderSyntax, st1)
     else (Inr (dec_value ds), st1))"
proof -
  define l where "l = bytes ''OPL2'' @ ws @ ds @ tail"
  have chars: "list_all line_char l"
    using ws ds(2) tail(1) unfolding l_def
    by (auto simp: tag_bytes line_char_def intro: list_all_implies blank_line_char digit_line_char)
  have ll: "length l \<le> LINE_MAXIMUM" using len by (simp add: l_def tag_bytes LINE_MAXIMUM_def)
  have "input st = l @ 0x0A # rest" using inp by (simp add: l_def)
  from readInput_line[OF this chars ll lc]
  have ri: "readInput st =
    (Inr True, st\<lparr>input := rest, line_count := line_count st + 1, l_buf := l\<rparr>)" .
  have t4: "take 4 l = [0x4F, 0x50, 0x4C, 0x32]" by (simp add: l_def tag_bytes)
  have d4: "drop 4 l = ws @ ds @ tail" by (simp add: l_def tag_bytes)
  note pi = parseInt_digits[OF ws ds tail(2), of "line_count st + 1"]
  show ?thesis
    unfolding l_def[symmetric]
    by (simp add: readHeader_def ri t4 d4 pi Let_def)
qed

text \<open>
  Claim C10. The header check compares only the first four bytes of the line with
  \<^verbatim>\<open>OPL2\<close> and then parses the control rate from byte offset 4, after skipping any
  blanks \<open>ws\<close>, of which there may be none. So a header line made of the tag, any
  number of blanks (also zero), a decimal rate in \<open>[1, 1024]\<close> and trailing blanks is
  accepted with that rate; the witness is the line \<^verbatim>\<open>OPL260\<close>, accepted with rate 60.
\<close>

theorem header_without_separator:
  assumes "list_all is_blank ws" "ds \<noteq> []" "list_all is_digit ds" "list_all is_blank tail"
    and "1 \<le> dec_value ds" "dec_value ds \<le> 1024" "length (ws @ ds @ tail) \<le> 1019"
    and "input st = bytes ''OPL2'' @ ws @ ds @ tail @ 0x0A # rest"
    and "line_count st < INT32_MAX"
  shows "readHeader st =
    (Inr (dec_value ds),
     st\<lparr>input := rest, line_count := line_count st + 1,
        l_buf := bytes ''OPL2'' @ ws @ ds @ tail\<rparr>)"
proof -
  have t1: "list_all line_char tail"
    using assms(4) by (rule list_all_implies) (rule blank_line_char)
  have t2: "\<not> is_digit (deref tail)" using assms(4) by (rule blank_not_digit_deref)
  have t3: "isBlankStr tail" using assms(4) by (simp add: isBlankStr_iff)
  have v: "\<not> INT32_MAX < dec_value ds" using assms(6) by (simp add: INT32_MAX_def)
  show ?thesis
    using readHeader_line[OF assms(8,1,2,3) t1 t2 assms(7,9)] assms(5,6) t3 v
    by (simp add: Let_def)
qed

theorem header_without_separator_witness:
  "readHeader \<lparr>input = bytes ''OPL260'' @ [0x0A], line_count = 0, l_buf = [],
                s_total = 0, s_fill = 0, events = []\<rparr> =
     (Inr 60, \<lparr>input = [], line_count = 1, l_buf = bytes ''OPL260'',
                s_total = 0, s_fill = 0, events = []\<rparr>)"
  using header_without_separator[of "[]" "bytes ''60''" "[]"
      "\<lparr>input = bytes ''OPL260'' @ [0x0A], line_count = 0, l_buf = [],
         s_total = 0, s_fill = 0, events = []\<rparr>" "[]"]
  by (simp add: bytes_def is_digit_def dec_value_def INT32_MAX_def)

text \<open>The state in which \<^verbatim>\<open>main\<close> calls \<^verbatim>\<open>readHeader\<close>: the device is initialised, nothing is read.\<close>

definition start_state :: "byte list \<Rightarrow> int \<Rightarrow> state" where
  "start_state stdin sample_rate =
     \<lparr>input = stdin, line_count = 0, l_buf = [], s_total = 0, s_fill = 0,
      events = [OplInit sample_rate]\<rparr>"

lemma retro_opl_header_error:
  assumes "arg = ''44100'' \<or> arg = ''48000''"
    and "readHeader (start_state stdin (if arg = ''44100'' then 44100 else 48000)) = (Inl e, st)"
  shows "retro_opl arg stdin = (Inl e, st)"
  using assms by (auto simp: retro_opl_def start_state_def Let_def)

text \<open>
  Claim C7, as amended. For every input whose header line carries, after the tag and
  optional blanks, a decimal control rate outside \<open>[1, 1024]\<close>, the interpreter rejects
  the input before reading any line beyond the header line (the input left is exactly
  what follows the header line, and the only effect is the initialisation of the
  device): with the control-rate range error when the rate fits a signed 32-bit integer,
  and with the integer-overflow error of the integer parser when it does not.
\<close>

theorem header_rate_out_of_range:
  assumes "arg = ''44100'' \<or> arg = ''48000''"
    and "list_all is_blank ws" "ds \<noteq> []" "list_all is_digit ds"
    and "list_all line_char tail" "\<not> is_digit (deref tail)"
    and "length (ws @ ds @ tail) \<le> 1019"
    and "dec_value ds < 1 \<or> 1024 < dec_value ds"
  shows "retro_opl arg (bytes ''OPL2'' @ ws @ ds @ tail @ 0x0A # rest) =
    (Inl (if dec_value ds \<le> INT32_MAX then ControlRateRange else IntOverflow 1),
     \<lparr>input = rest, line_count = 1, l_buf = bytes ''OPL2'' @ ws @ ds @ tail,
      s_total = 0, s_fill = 0,
      events = [OplInit (if arg = ''44100'' then 44100 else 48000)]\<rparr>)"
proof -
  define sr :: int where "sr = (if arg = ''44100'' then 44100 else 48000)"
  define st0 where "st0 = start_state (bytes ''OPL2'' @ ws @ ds @ tail @ 0x0A # rest) sr"
  have i: "input st0 = bytes ''OPL2'' @ ws @ ds @ tail @ 0x0A # rest"
    and lc: "line_count st0 < INT32_MAX"
    by (simp_all add: st0_def start_state_def INT32_MAX_def)
  have "readHeader st0 =
    (Inl (if dec_value ds \<le> INT32_MAX then ControlRateRange else IntOverflow 1),
     st0\<lparr>input := rest, line_count := line_count st0 + 1,
         l_buf := bytes ''OPL2'' @ ws @ ds @ tail\<rparr>)"
    using readHeader_line[OF i assms(2-7) lc] assms(8)
    by (auto simp: Let_def st0_def start_state_def)
  then show ?thesis
    using retro_opl_header_error[OF assms(1), of "bytes ''OPL2'' @ ws @ ds @ tail @ 0x0A # rest"]
    by (simp add: st0_def sr_def start_state_def)
qed

theorem header_rate_out_of_range_witness:
  "retro_opl ''44100'' (bytes ''OPL2 2000'' @ 0x0A # bytes ''w 1'' @ [0x0A]) =
    (Inl ControlRateRange,
     \<lparr>input = bytes ''w 1'' @ [0x0A], line_count = 1, l_buf = bytes ''OPL2 2000'',
      s_total = 0, s_fill = 0, events = [OplInit 44100]\<rparr>)"
  using header_rate_out_of_range[of "''44100''" "bytes '' ''" "bytes ''2000''" "[]"
      "bytes ''w 1'' @ [0x0A]"]
  by (simp add: bytes_def is_blank_def is_digit_def deref_def dec_value_def INT32_MAX_def)

text \<open>
  The claim as stated fails for a rate that does not fit 32 bits: the header
  \<^verbatim>\<open>OPL2 4294967296\<close> is rejected by the integer parser with its overflow error for
  line 1, not with the range error.
\<close>

theorem header_rate_overflow_counterexample:
  "retro_opl ''44100'' (bytes ''OPL2 4294967296'' @ 0x0A # bytes ''w 1'' @ [0x0A]) =
    (Inl (IntOverflow 1),
     \<lparr>input = bytes ''w 1'' @ [0x0A], line_count = 1, l_buf = bytes ''OPL2 4294967296'',
      s_total = 0, s_fill = 0, events = [OplInit 44100]\<rparr>)"
proof -
  define st0 where "st0 = start_state (bytes ''OPL2 4294967296'' @ 0x0A # bytes ''w 1'' @ [0x0A]) 44100"
  have i: "input st0 = bytes ''OPL2'' @ bytes '' '' @ bytes ''4294967296'' @ [] @ 0x0A # bytes ''w 1'' @ [0x0A]"
    by (simp add: st0_def start_state_def bytes_def)
  have "readHeader st0 =
    (Inl (IntOverflow 1),
     st0\<lparr>input := bytes ''w 1'' @ [0x0A], line_count := line_count st0 + 1,
         l_buf := bytes ''OPL2'' @ bytes '' '' @ bytes ''4294967296'' @ []\<rparr>)"
    using readHeader_line[OF i]
    by (simp add: bytes_def is_blank_def is_digit_def deref_def dec_value_def INT32_MAX_def
          st0_def start_state_def Let_def)
  then show ?thesis
    using retro_opl_header_error[of "''44100''"
        "bytes ''OPL2 4294967296'' @ 0x0A # bytes ''w 1'' @ [0x0A]"]
    by (simp add: st0_def start_state_def bytes_def)
qed

subsection \<open>The wait command\<close>

text \<open>The \<^verbatim>\<open>w\<close> command on a well-formed line: the letter, blanks, digits, blanks.\<close>

lemma process_line_wait:
  assumes l: "l_buf st = 0x77 # ws @ ds @ tail"
    and ws: "ws \<noteq> []" "list_all is_blank ws"
    and ds: "ds \<noteq> []" "list_all is_digit ds"
    and tail: "list_all is_blank tail"
    and v: "dec_value ds \<le> INT32_MAX"
  shows "process_line sample_rate rate t current st =
    (if t \<le> INT32_MAX - dec_value ds then
       (case sample_offset (t + dec_value ds) sample_rate rate of
          Inl e \<Rightarrow> (Inl e, st)
        | Inr soi \<Rightarrow>
            if soi \<le> current then (Inl NumericProblem, st)
            else
              (case computeSamples (soi - current) st of
                 (Inl e, st1) \<Rightarrow> (Inl e, st1)
               | (Inr u, st1) \<Rightarrow> (Inr (t + dec_value ds, soi), st1)))
     else (Inl TimeOverflow, st))"
proof -
  obtain b bs where wsc: "ws = b # bs" using ws(1) by (cases ws) auto
  have b: "b = 0x20 \<or> b = 0x09" using ws(2) wsc by (simp add: is_blank_def)
  have b0: "byte_at (l_buf st) 0 = 0x77" by (simp add: l byte_at_def)
  have b1: "byte_at (l_buf st) (Suc 0) = b" by (simp add: l byte_at_def wsc)
  have nb: "\<not> isBlankStr (l_buf st)" by (simp add: l)
  have d1: "drop (Suc 0) (l_buf st) = ws @ ds @ tail" by (simp add: l)
  have pi: "parseInt (line_count st) (ws @ ds @ tail) = Inr (dec_value ds, tail)"
    using parseInt_digits[OF ws(2) ds blank_not_digit_deref[OF tail], of "line_count st"] v
    by simp
  have bt: "isBlankStr tail" using tail by (simp add: isBlankStr_iff)
  show ?thesis using b
    by (auto simp: process_line_def Let_def b0 b1 nb d1 pi bt)
qed

lemma w0_line: "bytes ''w 0'' = 0x77 # [0x20] @ [0x30] @ []"
  by (simp add: bytes_def)

lemma process_line_w0:
  assumes "l_buf st = bytes ''w 0''" "t \<le> INT32_MAX"
    and "sample_offset t sample_rate rate = Inr current"
  shows "process_line sample_rate rate t current st = (Inl NumericProblem, st)"
proof -
  have l: "l_buf st = 0x77 # [0x20] @ [0x30] @ []" using assms(1) by (simp only: w0_line)
  have dv: "dec_value [0x30] = 0" by (simp add: dec_value_def)
  show ?thesis
    using process_line_wait[OF l, of sample_rate rate t current] assms(2,3)
    by (simp add: is_blank_def is_digit_def dv INT32_MAX_def)
qed

lemma process_line_wait_zero:
  assumes "l_buf st = 0x77 # ws @ ds @ tail" "ws \<noteq> []" "list_all is_blank ws"
    and "ds \<noteq> []" "list_all is_digit ds" "list_all is_blank tail"
    and "dec_value ds = 0" "t \<le> INT32_MAX"
    and "sample_offset t sample_rate rate = Inr current"
  shows "process_line sample_rate rate t current st = (Inl NumericProblem, st)"
proof -
  have v: "dec_value ds \<le> INT32_MAX" using assms(7) by (simp add: INT32_MAX_def)
  show ?thesis
    using process_line_wait[OF assms(1-6) v, of sample_rate rate t current] assms(7,8,9)
    by simp
qed

lemma retro_opl_body:
  assumes "arg = ''44100'' \<or> arg = ''48000''"
    and "sr = (if arg = ''44100'' then 44100 else 48000)"
    and "readHeader (start_state stdin sr) = (Inr rate, st)"
  shows "retro_opl arg stdin =
    (case main_loop sr rate 0 0 (st\<lparr>events := events st @ [WavBegin sr]\<rparr>) of
       (Inl e, st4) \<Rightarrow> (Inl e, st4)
     | (Inr tc, st4) \<Rightarrow> finishWAV (st4\<lparr>events := events st4 @ [OplFinish]\<rparr>))"
  using assms by (auto simp: retro_opl_def start_state_def Let_def)

lemma header_60:
  "readHeader (start_state (bytes ''OPL2 60'' @ 0x0A # rest) sr) =
    (Inr 60, \<lparr>input = rest, line_count = 1, l_buf = bytes ''OPL2 60'', s_total = 0,
               s_fill = 0, events = [OplInit sr]\<rparr>)"
proof -
  define st0 where "st0 = start_state (bytes ''OPL2 60'' @ 0x0A # rest) sr"
  have i: "input st0 = bytes ''OPL2'' @ bytes '' '' @ bytes ''60'' @ [] @ 0x0A # rest"
    by (simp add: st0_def start_state_def bytes_def)
  show ?thesis
    using readHeader_line[OF i]
    by (simp add: bytes_def is_blank_def is_digit_def deref_def dec_value_def INT32_MAX_def
          st0_def start_state_def Let_def)
qed

lemma sample_offset_zero: "0 < r \<Longrightarrow> r \<le> 1024 \<Longrightarrow> sample_offset 0 44100 r = Inr 0"
  using sample_offset_exact[of 0 44100 r] by (simp add: INT32_MAX_def)

text \<open>The main loop at a line \<^verbatim>\<open>w 0\<close>, when the position is the conversion of the clock.\<close>

lemma main_loop_at_wait_zero:
  assumes "sample_offset t sample_rate rate = Inr current" "t \<le> INT32_MAX"
    and "input st = bytes ''w 0'' @ 0x0A # rest" "line_count st < INT32_MAX"
  shows "main_loop sample_rate rate t current st =
    (Inl NumericProblem,
     st\<lparr>input := rest, line_count := line_count st + 1, l_buf := bytes ''w 0''\<rparr>)"
proof -
  have "readInput st =
    (Inr True, st\<lparr>input := rest, line_count := line_count st + 1, l_buf := bytes ''w 0''\<rparr>)"
    using assms(3,4)
    by (intro readInput_line) (simp_all add: bytes_def line_char_def LINE_MAXIMUM_def)
  moreover have "process_line sample_rate rate t current
      (st\<lparr>input := rest, line_count := line_count st + 1, l_buf := bytes ''w 0''\<rparr>) =
    (Inl NumericProblem,
     st\<lparr>input := rest, line_count := line_count st + 1, l_buf := bytes ''w 0''\<rparr>)"
    using assms(1,2) by (intro process_line_w0) simp_all
  ultimately show ?thesis
    by (simp add: main_loop.simps[of sample_rate rate t current st])
qed

lemma floor_div_superadditive:
  fixes a b r :: int
  assumes "0 < r"
  shows "a div r + b div r \<le> (a + b) div r"
proof -
  have "(a + b) div r = a div r + b div r + (a mod r + b mod r) div r"
    by (rule div_add1_eq)
  moreover have "0 \<le> (a mod r + b mod r) div r"
    using assms by (simp add: pos_imp_zdiv_nonneg_iff)
  ultimately show ?thesis by linarith
qed

lemma ticks_advance:
  fixes N s r :: int
  assumes "0 \<le> N" "0 < r" "r \<le> 1024" "44100 \<le> s"
  shows "43 * N \<le> (N * s) div r"
proof -
  have "43 * r \<le> s" using assms(3,4) by linarith
  then have "N * (43 * r) \<le> N * s" using assms(1) by (rule mult_left_mono)
  then have "(43 * N) * r \<le> N * s" by (simp add: algebra_simps)
  then have "((43 * N) * r) div r \<le> (N * s) div r" by (rule zdiv_mono1) (rule assms(2))
  then show ?thesis using assms(2) by simp
qed

text \<open>Each added tick moves the converted position on by at least 43.\<close>

lemma sample_offset_advances:
  assumes "1 \<le> rate" "rate \<le> 1024" "sample_rate = 44100 \<or> sample_rate = 48000"
    and "0 \<le> t" "1 \<le> N" "t \<le> INT32_MAX - N"
    and "sample_offset t sample_rate rate = Inr current"
    and "sample_offset (t + N) sample_rate rate = Inr soi"
  shows "current + 43 * N \<le> soi \<and> current < soi"
proof -
  have s: "0 \<le> sample_rate" "sample_rate < 2 ^ 16" "44100 \<le> sample_rate"
    using assms(3) by auto
  have r: "0 < rate" "rate \<le> 2 ^ 22" using assms(1,2) by simp_all
  have t1: "t \<le> INT32_MAX" using assms(5,6) by linarith
  have t2: "0 \<le> t + N" "t + N \<le> INT32_MAX" using assms(4,5,6) by linarith+
  have c: "current = (t * sample_rate) div rate"
    using assms(7) sample_offset_exact[OF assms(4) t1 s(1,2) r]
    by (simp split: if_splits)
  have n: "soi = ((t + N) * sample_rate) div rate"
    using assms(8) sample_offset_exact[OF t2 s(1,2) r]
    by (simp split: if_splits)
  have "(t * sample_rate) div rate + (N * sample_rate) div rate
      \<le> (t * sample_rate + N * sample_rate) div rate"
    using r(1) by (rule floor_div_superadditive)
  moreover have "43 * N \<le> (N * sample_rate) div rate"
    using assms(5) r(1) assms(2) s(3) by (intro ticks_advance) simp_all
  ultimately have "current + 43 * N \<le> soi"
    unfolding c n by (simp add: distrib_right)
  then show ?thesis using assms(5) by simp
qed

subsection \<open>Generation through the sample buffer\<close>

text \<open>
  Generating through the buffer. From a full buffer, a request of \<open>4096 * k + r\<close>
  samples with \<open>0 < r \<le> 4096\<close> flushes the buffer, generates and flushes \<open>k\<close> full
  buffers and leaves the last \<open>r\<close> samples in the buffer.
\<close>

definition full_blocks :: "nat \<Rightarrow> event list" where
  "full_blocks k = concat (replicate k [OplGenerate 4096, WavSamples 4096])"

lemma computeSamples_loop_done: "computeSamples_loop 0 st = (Inr (), st)"
  by (simp add: computeSamples_loop.simps[of 0 st])

lemma state_eqI:
  fixes a b :: state
  assumes "input a = input b" "line_count a = line_count b" "l_buf a = l_buf b"
    and "s_total a = s_total b" "s_fill a = s_fill b" "events a = events b"
  shows "a = b"
  using assms by (intro state.equality) simp_all

lemma computeSamples_loop_step_full:
  assumes "s_fill st = 4096" "0 < count" "s_total st \<le> INT32_MAX - 4096"
  shows "computeSamples_loop count st =
    computeSamples_loop (count - min count 4096)
      (st\<lparr>events := events st @ [WavSamples 4096, OplGenerate (min count 4096)],
          s_total := s_total st + 4096, s_fill := min count 4096\<rparr>)"
proof -
  have fb: "flushBuffer st =
    (Inr (), st\<lparr>events := events st @ [WavSamples 4096], s_total := s_total st + 4096,
               s_fill := 0\<rparr>)"
    using assms(1,3) by (simp add: flushBuffer_def Let_def)
  have "computeSamples_loop count st =
    computeSamples_loop (count - min count 4096)
      (st\<lparr>events := events st @ [WavSamples 4096], s_total := s_total st + 4096, s_fill := 0,
          events := (events st @ [WavSamples 4096]) @ [OplGenerate (min count 4096)],
          s_fill := 0 + min count 4096\<rparr>)"
    by (subst computeSamples_loop.simps)
       (use assms(1,2) in \<open>simp add: fb BUFFER_SAMPLES_def Let_def min_def\<close>)
  moreover have "st\<lparr>events := events st @ [WavSamples 4096], s_total := s_total st + 4096,
          s_fill := 0,
          events := (events st @ [WavSamples 4096]) @ [OplGenerate (min count 4096)],
          s_fill := 0 + min count 4096\<rparr> =
      st\<lparr>events := events st @ [WavSamples 4096, OplGenerate (min count 4096)],
          s_total := s_total st + 4096, s_fill := min count 4096\<rparr>"
    by (intro state_eqI) simp_all
  ultimately show ?thesis by (simp only:)
qed

lemma computeSamples_loop_step_empty:
  assumes "s_fill st = 0" "0 < count"
  shows "computeSamples_loop count st =
    computeSamples_loop (count - min count 4096)
      (st\<lparr>events := events st @ [OplGenerate (min count 4096)],
          s_fill := min count 4096\<rparr>)"
  by (subst computeSamples_loop.simps)
     (use assms in \<open>simp add: BUFFER_SAMPLES_def Let_def min_def\<close>)

lemma computeSamples_loop_from_full:
  assumes "s_fill st = 4096" "0 < r" "r \<le> 4096"
    and "s_total st + 4096 * (int k + 1) \<le> INT32_MAX"
  shows "computeSamples_loop (4096 * int k + r) st =
    (Inr (), st\<lparr>events := events st @ [WavSamples 4096] @ full_blocks k @ [OplGenerate r],
               s_total := s_total st + 4096 * (int k + 1), s_fill := r\<rparr>)"
  using assms
proof (induction k arbitrary: st)
  case 0
  have "computeSamples_loop r st =
    computeSamples_loop (r - min r 4096)
      (st\<lparr>events := events st @ [WavSamples 4096, OplGenerate (min r 4096)],
          s_total := s_total st + 4096, s_fill := min r 4096\<rparr>)"
    using "0.prems" by (intro computeSamples_loop_step_full) simp_all
  moreover have "min r 4096 = r" using "0.prems"(3) by simp
  ultimately show ?case
    by (simp add: computeSamples_loop_done full_blocks_def)
next
  case (Suc k)
  define c where "c = 4096 * int (Suc k) + r"
  define st2 where "st2 = st\<lparr>events := events st @ [WavSamples 4096, OplGenerate 4096],
      s_total := s_total st + 4096, s_fill := 4096\<rparr>"
  have m: "min c 4096 = 4096" "c - 4096 = 4096 * int k + r" "0 < c"
    using Suc.prems(2) by (simp_all add: c_def)
  have "computeSamples_loop c st =
    computeSamples_loop (c - min c 4096)
      (st\<lparr>events := events st @ [WavSamples 4096, OplGenerate (min c 4096)],
          s_total := s_total st + 4096, s_fill := min c 4096\<rparr>)"
    using Suc.prems m(3) by (intro computeSamples_loop_step_full) simp_all
  then have step: "computeSamples_loop c st = computeSamples_loop (4096 * int k + r) st2"
    by (simp only: m st2_def)
  have "computeSamples_loop (4096 * int k + r) st2 =
    (Inr (), st2\<lparr>events := events st2 @ [WavSamples 4096] @ full_blocks k @ [OplGenerate r],
               s_total := s_total st2 + 4096 * (int k + 1), s_fill := r\<rparr>)"
    using Suc.prems by (intro Suc.IH) (simp_all add: st2_def)
  then show ?case
    unfolding c_def[symmetric] step by (simp add: st2_def full_blocks_def)
qed

lemma computeSamples_from_empty:
  assumes "s_fill st = 0" "0 < r" "r \<le> 4096"
    and "s_total st + 4096 * int k \<le> INT32_MAX"
  shows "computeSamples (4096 * int k + r) st =
    (Inr (), st\<lparr>events := events st @ full_blocks k @ [OplGenerate r],
               s_total := s_total st + 4096 * int k, s_fill := r\<rparr>)"
proof -
  define c where "c = 4096 * int k + r"
  have c0: "0 < c" using assms(2) by (simp add: c_def)
  have e: "computeSamples_loop c st =
    computeSamples_loop (c - min c 4096)
      (st\<lparr>events := events st @ [OplGenerate (min c 4096)], s_fill := min c 4096\<rparr>)"
    using assms(1) c0 by (rule computeSamples_loop_step_empty)
  have "computeSamples_loop c st =
    (Inr (), st\<lparr>events := events st @ full_blocks k @ [OplGenerate r],
               s_total := s_total st + 4096 * int k, s_fill := r\<rparr>)"
  proof (cases k)
    case 0
    then have "min c 4096 = r" "c - r = 0" using assms(3) by (simp_all add: c_def)
    then show ?thesis using e 0 by (simp add: computeSamples_loop_done full_blocks_def)
  next
    case (Suc j)
    define st1 where "st1 = st\<lparr>events := events st @ [OplGenerate 4096], s_fill := 4096\<rparr>"
    have m: "min c 4096 = 4096" "c - 4096 = 4096 * int j + r"
      using assms(2) Suc by (simp_all add: c_def)
    have step: "computeSamples_loop c st = computeSamples_loop (4096 * int j + r) st1"
      using e by (simp only: m st1_def)
    have "computeSamples_loop (4096 * int j + r) st1 =
      (Inr (), st1\<lparr>events := events st1 @ [WavSamples 4096] @ full_blocks j @ [OplGenerate r],
                 s_total := s_total st1 + 4096 * (int j + 1), s_fill := r\<rparr>)"
      using assms Suc by (intro computeSamples_loop_from_full) (simp_all add: st1_def)
    then show ?thesis
      unfolding step using Suc by (simp add: st1_def full_blocks_def algebra_simps)
  qed
  then show ?thesis using c0 by (simp add: computeSamples_def c_def)
qed

text \<open>What a trace shows: the register writes, the samples generated, the samples written.\<close>

fun register_writes :: "event list \<Rightarrow> (byte \<times> byte) list" where
  "register_writes [] = []"
| "register_writes (OplWrite reg val # es) = (reg, val) # register_writes es"
| "register_writes (e # es) = register_writes es"

fun generated :: "event list \<Rightarrow> int" where
  "generated [] = 0"
| "generated (OplGenerate n # es) = n + generated es"
| "generated (e # es) = generated es"

fun written :: "event list \<Rightarrow> int" where
  "written [] = 0"
| "written (WavSamples n # es) = n + written es"
| "written (e # es) = written es"

lemma register_writes_append: "register_writes (xs @ ys) = register_writes xs @ register_writes ys"
  by (induction xs rule: register_writes.induct) simp_all

lemma generated_append: "generated (xs @ ys) = generated xs + generated ys"
  by (induction xs rule: generated.induct) simp_all

lemma written_append: "written (xs @ ys) = written xs + written ys"
  by (induction xs rule: written.induct) simp_all

lemma full_blocks_trace:
  "register_writes (full_blocks k) = []" "generated (full_blocks k) = 4096 * int k"
  "written (full_blocks k) = 4096 * int k"
  by (induction k) (simp_all add: full_blocks_def)

lemma sample_offset_120: "sample_offset (0 + 120) 44100 60 = Inr 88200"
  using sample_offset_exact[of 120 44100 60] by (simp add: INT32_MAX_def)

lemma scenario_A_run:
  "retro_opl ''44100''
     (bytes ''OPL2 60'' @ 0x0A # bytes ''r 20 01'' @ 0x0A # bytes ''w 120'' @ [0x0A]) =
   (Inr (),
    \<lparr>input = [], line_count = 3, l_buf = bytes ''w 120'', s_total = 88200, s_fill = 0,
     events = [OplInit 44100, WavBegin 44100, OplWrite 0x20 0x01] @ full_blocks 21
              @ [OplGenerate 2184, OplFinish, WavSamples 2184, WavSizes 176436 176400]\<rparr>)"
proof -
  define st1 where "st1 = \<lparr>input = bytes ''r 20 01'' @ 0x0A # bytes ''w 120'' @ [0x0A],
      line_count = 1, l_buf = bytes ''OPL2 60'', s_total = 0, s_fill = 0,
      events = [OplInit 44100, WavBegin 44100]\<rparr>"
  define st2 where "st2 = st1\<lparr>input := bytes ''w 120'' @ [0x0A], line_count := 2,
      l_buf := bytes ''r 20 01''\<rparr>"
  define st3 where "st3 = st2\<lparr>events := events st2 @ [OplWrite 0x20 0x01]\<rparr>"
  define st4 where "st4 = st3\<lparr>input := [], line_count := 3, l_buf := bytes ''w 120''\<rparr>"
  define st5 where "st5 = st4\<lparr>events := events st4 @ full_blocks 21 @ [OplGenerate 2184],
      s_total := s_total st4 + 4096 * int 21, s_fill := 2184\<rparr>"
  have r1: "readInput st1 = (Inr True, st1\<lparr>input := bytes ''w 120'' @ [0x0A],
      line_count := line_count st1 + 1, l_buf := bytes ''r 20 01''\<rparr>)"
    by (intro readInput_line)
       (simp_all add: st1_def bytes_def line_char_def LINE_MAXIMUM_def INT32_MAX_def)
  then have r1: "readInput st1 = (Inr True, st2)" by (simp add: st1_def st2_def)
  have p1: "process_line 44100 60 0 0 st2 = (Inr (0, 0), st3)"
    by (simp add: process_line_def st2_def st1_def st3_def bytes_def byte_at_def Let_def
          parseByte_def parseByte_digit_def hex_digit_def deref_def)
  have r2: "readInput st3 = (Inr True, st3\<lparr>input := [],
      line_count := line_count st3 + 1, l_buf := bytes ''w 120''\<rparr>)"
    by (intro readInput_line)
       (simp_all add: st3_def st2_def st1_def bytes_def line_char_def LINE_MAXIMUM_def INT32_MAX_def)
  then have r2: "readInput st3 = (Inr True, st4)" by (simp add: st4_def st3_def st2_def st1_def)
  have l4: "l_buf st4 = 0x77 # [0x20] @ bytes ''120'' @ []" by (simp add: st4_def bytes_def)
  have cs: "computeSamples (4096 * int 21 + 2184) st4 = (Inr (), st5)"
    unfolding st5_def
    by (intro computeSamples_from_empty)
       (simp_all add: st4_def st3_def st2_def st1_def INT32_MAX_def)
  have p2: "process_line 44100 60 0 0 st4 = (Inr (120, 88200), st5)"
    using process_line_wait[OF l4, of 44100 60 0 0] sample_offset_120 cs
    by (simp add: is_blank_def is_digit_def bytes_def dec_value_def INT32_MAX_def)
  have r3: "readInput st5 = (Inr False, st5)"
    by (simp add: readInput_def st5_def st4_def)
  have m3: "main_loop 44100 60 120 88200 st5 = (Inr (120, 88200), st5)"
    by (simp add: main_loop.simps[of 44100 60 120 88200 st5] r3)
  have m2: "main_loop 44100 60 0 0 st3 = (Inr (120, 88200), st5)"
    by (simp add: main_loop.simps[of 44100 60 0 0 st3] r2 p2 m3)
  have m1: "main_loop 44100 60 0 0 st1 = (Inr (120, 88200), st5)"
    by (simp add: main_loop.simps[of 44100 60 0 0 st1] r1 p1 m2)
  have fw: "finishWAV (st5\<lparr>events := events st5 @ [OplFinish]\<rparr>) =
    (Inr (),
     \<lparr>input = [], line_count = 3, l_buf = bytes ''w 120'', s_total = 88200, s_fill = 0,
      events = [OplInit 44100, WavBegin 44100, OplWrite 0x20 0x01] @ full_blocks 21
              @ [OplGenerate 2184, OplFinish, WavSamples 2184, WavSizes 176436 176400]\<rparr>)"
    by (simp add: finishWAV_def flushBuffer_def Let_def INT32_MAX_def
          st5_def st4_def st3_def st2_def st1_def)
  show ?thesis
    using retro_opl_body[OF _ _ header_60, of "''44100''" 44100
        "bytes ''r 20 01'' @ 0x0A # bytes ''w 120'' @ [0x0A]"] m1 fw
    by (simp add: st1_def)
qed

text \<open>
  Claim C2. Interpreting the three lines \<^verbatim>\<open>OPL2 60\<close>, \<^verbatim>\<open>r 20 01\<close>, \<^verbatim>\<open>w 120\<close> at the
  output rate 44100 succeeds and consumes the whole input. Its effects are, in order:
  the initialisation, exactly one register write, of value 0x01 to address 0x20, the
  generation of 88200 audio units through the sample buffer (21 full buffers of 4096,
  each written out when the next samples arrive, then 2184 samples), and at the end of
  input the flush of the 2184 samples left in the buffer, after which 88200 samples
  have been written and the buffer is empty.
\<close>

theorem scenario_A:
  "(case retro_opl ''44100''
      (bytes ''OPL2 60'' @ 0x0A # bytes ''r 20 01'' @ 0x0A # bytes ''w 120'' @ [0x0A]) of
     (res, st) \<Rightarrow>
       res = Inr () \<and> input st = [] \<and>
       events st = [OplInit 44100, WavBegin 44100, OplWrite 0x20 0x01] @ full_blocks 21
              @ [OplGenerate 2184, OplFinish, WavSamples 2184, WavSizes 176436 176400] \<and>
       register_writes (events st) = [(0x20, 0x01)] \<and>
       generated (events st) = 88200 \<and> written (events st) = 88200 \<and>
       s_total st = 88200 \<and> s_fill st = 0)"
  by (simp add: scenario_A_run register_writes_append generated_append written_append
        full_blocks_trace)

subsection \<open>The invariant of the main loop\<close>

text \<open>
  The main loop after its first \<open>n\<close> rounds, each of which read a line and processed it
  without error: the clock, the position and the state with which the next round starts.
  \<open>None\<close> when the loop does not get that far.
\<close>

fun main_loop_steps ::
  "nat \<Rightarrow> int \<Rightarrow> int \<Rightarrow> int \<Rightarrow> int \<Rightarrow> state \<Rightarrow> (int \<times> int \<times> state) option" where
  "main_loop_steps 0 sample_rate rate t current st = Some (t, current, st)"
| "main_loop_steps (Suc n) sample_rate rate t current st =
     (case readInput st of
        (Inl e, st1) \<Rightarrow> None
      | (Inr got, st1) \<Rightarrow>
          if \<not> got then None
          else
            (case process_line sample_rate rate t current st1 of
               (Inl e, st2) \<Rightarrow> None
             | (Inr (t', current'), st2) \<Rightarrow> main_loop_steps n sample_rate rate t' current' st2))"

text \<open>The loop started anew from a state it reaches ends as the loop itself does.\<close>

lemma main_loop_steps_continue:
  "main_loop_steps n sample_rate rate t current st = Some (t', current', st')
   \<Longrightarrow> main_loop sample_rate rate t current st = main_loop sample_rate rate t' current' st'"
proof (induction n arbitrary: t current st)
  case 0
  then show ?case by simp
next
  case (Suc n)
  obtain r st1 where ri: "readInput st = (r, st1)" by (cases "readInput st")
  from Suc.prems ri have r: "r = Inr True"
    by (cases r) (auto split: if_splits)
  obtain p st2 where pl: "process_line sample_rate rate t current st1 = (p, st2)"
    by (cases "process_line sample_rate rate t current st1")
  from Suc.prems ri r pl obtain t1 c1 where p: "p = Inr (t1, c1)"
    by (cases p) auto
  from Suc.prems ri r pl p
  have "main_loop_steps n sample_rate rate t1 c1 st2 = Some (t', current', st')" by simp
  then have "main_loop sample_rate rate t1 c1 st2 = main_loop sample_rate rate t' current' st'"
    by (rule Suc.IH)
  then show ?case
    by (simp add: main_loop.simps[of sample_rate rate t current st] ri r pl p)
qed

lemma parseInt_loop_nonneg:
  "0 \<le> acc \<Longrightarrow> parseInt_loop lc acc s = Inr (v, rest) \<Longrightarrow> 0 \<le> v"
proof (induction s arbitrary: acc)
  case Nil
  then show ?case by simp
next
  case (Cons c cs)
  show ?case
  proof (cases "0x30 \<le> c \<and> c \<le> 0x39")
    case False
    with Cons.prems show ?thesis by auto
  next
    case True
    then have d: "0 \<le> uint c - 0x30" by (simp add: word_le_def)
    from Cons.prems True
    have "parseInt_loop lc (acc * 10 + (uint c - 0x30)) cs = Inr (v, rest)"
      by (simp add: Let_def split: if_splits)
    moreover have "0 \<le> acc * 10 + (uint c - 0x30)" using Cons.prems(1) d by simp
    ultimately show ?thesis using Cons.IH by blast
  qed
qed

lemma parseInt_nonneg: "parseInt lc p = Inr (v, rest) \<Longrightarrow> 0 \<le> v"
  using parseInt_loop_nonneg[of 0 lc "skip_blanks p" v rest]
  by (simp add: parseInt_def Let_def split: if_splits)

text \<open>
  The invariant of the main loop: the clock is a non-negative 32-bit value and the
  sample position is its conversion. Every round of the loop keeps it.
\<close>

lemma process_line_invariant:
  assumes "0 \<le> t" "t \<le> INT32_MAX" "sample_offset t sample_rate rate = Inr current"
    and "process_line sample_rate rate t current st = (Inr (t', current'), st')"
  shows "0 \<le> t' \<and> t' \<le> INT32_MAX \<and> sample_offset t' sample_rate rate = Inr current'"
proof (cases "byte_at (l_buf st) 0 = 0x77 \<and> \<not> (byte_at (l_buf st) 0 = 0x27 \<or> isBlankStr (l_buf st))
              \<and> \<not> (byte_at (l_buf st) 1 \<noteq> 0x20 \<and> byte_at (l_buf st) 1 \<noteq> 0x09)")
  case False
  then have "t' = t \<and> current' = current"
    using assms(4)
    by (auto simp: process_line_def Let_def split: if_splits sum.splits prod.splits)
  then show ?thesis using assms(1,2,3) by simp
next
  case True
  then have w: "process_line sample_rate rate t current st =
     (case parseInt (line_count st) (drop 1 (l_buf st)) of
           Inl e \<Rightarrow> (Inl e, st)
         | Inr (iv32, p1) \<Rightarrow>
             if \<not> isBlankStr p1 then (Inl (CommandSyntax (line_count st)), st)
             else if t \<le> INT32_MAX - iv32 then
               (case sample_offset (t + iv32) sample_rate rate of
                  Inl e \<Rightarrow> (Inl e, st)
                | Inr soi \<Rightarrow>
                    if soi \<le> current then (Inl NumericProblem, st)
                    else
                      (case computeSamples (soi - current) st of
                         (Inl e, st1) \<Rightarrow> (Inl e, st1)
                       | (Inr u, st1) \<Rightarrow> (Inr (t + iv32, soi), st1)))
             else (Inl TimeOverflow, st))"
    by (auto simp: process_line_def Let_def)
  obtain iv32 p1 where pi: "parseInt (line_count st) (drop 1 (l_buf st)) = Inr (iv32, p1)"
    using assms(4) unfolding w
    by (cases "parseInt (line_count st) (drop 1 (l_buf st))") auto
  have iv: "0 \<le> iv32" using pi by (rule parseInt_nonneg)
  have "t' = t + iv32 \<and> t \<le> INT32_MAX - iv32 \<and> sample_offset (t + iv32) sample_rate rate = Inr current'"
    using assms(4) unfolding w pi
    by (auto split: if_splits sum.splits prod.splits)
  then show ?thesis using assms(1) iv by auto
qed

lemma main_loop_steps_invariant:
  assumes "main_loop_steps n sample_rate rate t current st = Some (t', current', st')"
    and "0 \<le> t" "t \<le> INT32_MAX" "sample_offset t sample_rate rate = Inr current"
  shows "0 \<le> t' \<and> t' \<le> INT32_MAX \<and> sample_offset t' sample_rate rate = Inr current'"
  using assms
proof (induction n arbitrary: t current st)
  case 0
  then show ?case by simp
next
  case (Suc n)
  obtain r st1 where ri: "readInput st = (r, st1)" by (cases "readInput st")
  from Suc.prems(1) ri have r: "r = Inr True"
    by (cases r) (auto split: if_splits)
  obtain p st2 where pl: "process_line sample_rate rate t current st1 = (p, st2)"
    by (cases "process_line sample_rate rate t current st1")
  from Suc.prems(1) ri r pl obtain t1 c1 where p: "p = Inr (t1, c1)"
    by (cases p) auto
  from Suc.prems(1) ri r pl p
  have st: "main_loop_steps n sample_rate rate t1 c1 st2 = Some (t', current', st')" by simp
  have "0 \<le> t1 \<and> t1 \<le> INT32_MAX \<and> sample_offset t1 sample_rate rate = Inr c1"
    using Suc.prems(2,3,4) pl[unfolded p] by (rule process_line_invariant)
  then show ?case using Suc.IH[OF st] by blast
qed

lemma sample_offset_start:
  assumes "1 \<le> rate" "rate \<le> 1024" "sample_rate = 44100 \<or> sample_rate = 48000"
  shows "sample_offset 0 sample_rate rate = Inr 0"
proof -
  have "sample_rate < 2 ^ 16" "0 \<le> sample_rate" using assms(3) by auto
  then show ?thesis
    using sample_offset_exact[of 0 sample_rate rate] assms(1,2) by (simp add: INT32_MAX_def)
qed

text \<open>The loop of \<^verbatim>\<open>main\<close> starts with clock and position 0; so the invariant holds
  at every round it reaches.\<close>

lemma main_loop_reached_invariant:
  assumes "1 \<le> rate" "rate \<le> 1024" "sample_rate = 44100 \<or> sample_rate = 48000"
    and "main_loop_steps n sample_rate rate 0 0 st0 = Some (t, current, st)"
  shows "0 \<le> t \<and> t \<le> INT32_MAX \<and> sample_offset t sample_rate rate = Inr current"
  using assms(4) _ _ sample_offset_start[OF assms(1,2,3)]
  by (rule main_loop_steps_invariant) (simp_all add: INT32_MAX_def)

lemma readHeader_rate:
  "readHeader st = (Inr rate, st') \<Longrightarrow> 1 \<le> rate \<and> rate \<le> 1024"
  by (auto simp: readHeader_def split: prod.splits sum.splits if_splits)

lemma readInput_frame:
  "readInput st = (r, st1) \<Longrightarrow>
     events st1 = events st \<and> s_total st1 = s_total st \<and> s_fill st1 = s_fill st"
  by (auto simp: readInput_def Let_def split: list.splits if_splits prod.splits sum.splits)

lemma flushBuffer_error: "flushBuffer st = (Inl e, st') \<Longrightarrow> e = SampleOverflow"
  by (auto simp: flushBuffer_def Let_def split: if_splits)

lemma computeSamples_loop_error:
  "computeSamples_loop count st = (Inl e, st') \<Longrightarrow> e = SampleOverflow"
proof (induction count st rule: computeSamples_loop.induct)
  case (1 count st)
  show ?case
  proof (cases "0 < count")
    case False
    with "1.prems" show ?thesis by (simp add: computeSamples_loop.simps[of count st])
  next
    case True
    obtain r0 s0 where f: "(if BUFFER_SAMPLES \<le> s_fill st then flushBuffer st else (Inr (), st)) = (r0, s0)"
      by (cases "if BUFFER_SAMPLES \<le> s_fill st then flushBuffer st else (Inr (), st)")
    show ?thesis
    proof (cases r0)
      case (Inl e0)
      have "e0 = SampleOverflow"
        using f Inl by (auto split: if_splits dest: flushBuffer_error)
      with "1.prems" True f Inl show ?thesis
        by (simp add: computeSamples_loop.simps[of count st])
    next
      case (Inr u)
      define work where "work = (if count < BUFFER_SAMPLES - s_fill s0 then count
                          else BUFFER_SAMPLES - s_fill s0)"
      have "computeSamples_loop (count - work)
              (s0\<lparr>events := events s0 @ [OplGenerate work], s_fill := s_fill s0 + work\<rparr>) = (Inl e, st')"
        using "1.prems" True f Inr
        by (simp add: computeSamples_loop.simps[of count st] work_def Let_def)
      from "1.IH"[OF True f[symmetric] Inr work_def this] show ?thesis .
    qed
  qed
qed

lemma computeSamples_not_numeric:
  "0 < count \<Longrightarrow> fst (computeSamples count st) \<noteq> Inl NumericProblem"
proof
  assume c: "0 < count" and n: "fst (computeSamples count st) = Inl NumericProblem"
  obtain r s where cs: "computeSamples_loop count st = (r, s)"
    by (cases "computeSamples_loop count st")
  from c n cs have "r = Inl NumericProblem" by (simp add: computeSamples_def)
  with cs have "NumericProblem = SampleOverflow" using computeSamples_loop_error by blast
  then show False by simp
qed

lemma process_line_wait_overflow:
  assumes l: "l_buf st = 0x77 # ws @ ds @ tail"
    and ws: "ws \<noteq> []" "list_all is_blank ws"
    and ds: "ds \<noteq> []" "list_all is_digit ds"
    and tail: "list_all is_blank tail"
    and v: "INT32_MAX < dec_value ds"
  shows "process_line sample_rate rate t current st = (Inl (IntOverflow (line_count st)), st)"
proof -
  obtain b bs where wsc: "ws = b # bs" using ws(1) by (cases ws) auto
  have b: "b = 0x20 \<or> b = 0x09" using ws(2) wsc by (simp add: is_blank_def)
  have b0: "byte_at (l_buf st) 0 = 0x77" by (simp add: l byte_at_def)
  have b1: "byte_at (l_buf st) (Suc 0) = b" by (simp add: l byte_at_def wsc)
  have nb: "\<not> isBlankStr (l_buf st)" by (simp add: l)
  have d1: "drop (Suc 0) (l_buf st) = ws @ ds @ tail" by (simp add: l)
  have pi: "parseInt (line_count st) (ws @ ds @ tail) = Inl (IntOverflow (line_count st))"
    using parseInt_digits[OF ws(2) ds blank_not_digit_deref[OF tail], of "line_count st"] v
    by simp
  show ?thesis using b
    by (auto simp: process_line_def Let_def b0 b1 nb d1 pi)
qed

text \<open>
  Claim C3, as amended. Take any run of the interpreter: the header line is accepted,
  the main loop reads and processes \<open>n\<close> body lines without error, and the next line
  it reads is a wait for zero cycles: the letter \<^verbatim>\<open>w\<close>, blanks, decimal digits of value 0
  and trailing blanks, as in \<^verbatim>\<open>w 0\<close>. Then the program stops at that line with its
  numeric-problem error. The clock does not move, so the position computed for it
  equals the current one, which the loop keeps equal to the conversion of the clock,
  and the test \<open>soi \<le> current\<close> succeeds. The state at the stop is the state in which
  the line was read: no audio unit is generated for the line and nothing is written.
\<close>

theorem wait_zero_rejected:
  assumes "arg = ''44100'' \<or> arg = ''48000''"
    and "sample_rate = (if arg = ''44100'' then 44100 else 48000)"
    and "readHeader (start_state stdin sample_rate) = (Inr rate, st0)"
    and "main_loop_steps n sample_rate rate 0 0
           (st0\<lparr>events := events st0 @ [WavBegin sample_rate]\<rparr>) = Some (t, current, st)"
    and "readInput st = (Inr True, st1)"
    and "l_buf st1 = 0x77 # ws @ ds @ tail" "ws \<noteq> []" "list_all is_blank ws"
    and "ds \<noteq> []" "list_all is_digit ds" "list_all is_blank tail"
    and "dec_value ds = 0"
  shows "retro_opl arg stdin = (Inl NumericProblem, st1)
       \<and> events st1 = events st \<and> s_total st1 = s_total st \<and> s_fill st1 = s_fill st"
proof -
  have sr: "sample_rate = 44100 \<or> sample_rate = 48000" using assms(1,2) by auto
  have rate: "1 \<le> rate" "rate \<le> 1024" using readHeader_rate[OF assms(3)] by simp_all
  have inv: "0 \<le> t \<and> t \<le> INT32_MAX \<and> sample_offset t sample_rate rate = Inr current"
    using rate sr assms(4) by (rule main_loop_reached_invariant)
  have pl: "process_line sample_rate rate t current st1 = (Inl NumericProblem, st1)"
    using inv by (intro process_line_wait_zero[OF assms(6-12)]) simp_all
  have "main_loop sample_rate rate t current st = (Inl NumericProblem, st1)"
    by (simp add: main_loop.simps[of sample_rate rate t current st] assms(5) pl)
  then have "main_loop sample_rate rate 0 0 (st0\<lparr>events := events st0 @ [WavBegin sample_rate]\<rparr>)
      = (Inl NumericProblem, st1)"
    using main_loop_steps_continue[OF assms(4)] by simp
  then have "retro_opl arg stdin = (Inl NumericProblem, st1)"
    using retro_opl_body[OF assms(1,2,3)] by simp
  then show ?thesis using readInput_frame[OF assms(5)] by simp
qed


text \<open>The main loop after the line \<^verbatim>\<open>w 120\<close> at control rate 60 and sample rate 44100.\<close>

lemma steps_after_w120:
  "main_loop_steps (Suc 0) 44100 60 0 0
     \<lparr>input = bytes ''w 120'' @ 0x0A # rest, line_count = 1, l_buf = bytes ''OPL2 60'',
      s_total = 0, s_fill = 0, events = [OplInit 44100, WavBegin 44100]\<rparr> =
   Some (120, 88200,
     \<lparr>input = rest, line_count = 2, l_buf = bytes ''w 120'', s_total = 86016, s_fill = 2184,
      events = [OplInit 44100, WavBegin 44100] @ full_blocks 21 @ [OplGenerate 2184]\<rparr>)"
proof -
  define st1 where "st1 = \<lparr>input = bytes ''w 120'' @ 0x0A # rest, line_count = 1,
      l_buf = bytes ''OPL2 60'', s_total = 0, s_fill = 0,
      events = [OplInit 44100, WavBegin 44100]\<rparr>"
  define st2 where "st2 = st1\<lparr>input := rest, line_count := 2, l_buf := bytes ''w 120''\<rparr>"
  define st3 where "st3 = st2\<lparr>events := events st2 @ full_blocks 21 @ [OplGenerate 2184],
      s_total := s_total st2 + 4096 * int 21, s_fill := 2184\<rparr>"
  have "readInput st1 = (Inr True, st1\<lparr>input := rest,
      line_count := line_count st1 + 1, l_buf := bytes ''w 120''\<rparr>)"
    by (intro readInput_line)
       (simp_all add: st1_def bytes_def line_char_def LINE_MAXIMUM_def INT32_MAX_def)
  then have r1: "readInput st1 = (Inr True, st2)" by (simp add: st1_def st2_def)
  have l2: "l_buf st2 = 0x77 # [0x20] @ bytes ''120'' @ []" by (simp add: st2_def bytes_def)
  have cs: "computeSamples (4096 * int 21 + 2184) st2 = (Inr (), st3)"
    unfolding st3_def
    by (intro computeSamples_from_empty) (simp_all add: st2_def st1_def INT32_MAX_def)
  have p2: "process_line 44100 60 0 0 st2 = (Inr (120, 88200), st3)"
    using process_line_wait[OF l2, of 44100 60 0 0] sample_offset_120 cs
    by (simp add: is_blank_def is_digit_def bytes_def dec_value_def INT32_MAX_def)
  have "main_loop_steps (Suc 0) 44100 60 0 0 st1 = Some (120, 88200, st3)"
    by (simp add: r1 p2)
  then show ?thesis by (simp add: st1_def st2_def st3_def)
qed

theorem wait_zero_rejected_witness:
  "retro_opl ''44100''
     (bytes ''OPL2 60'' @ 0x0A # bytes ''w 120'' @ 0x0A # bytes ''w 0'' @ [0x0A]) =
   (Inl NumericProblem,
     \<lparr>input = [], line_count = 3, l_buf = bytes ''w 0'', s_total = 86016, s_fill = 2184,
      events = [OplInit 44100, WavBegin 44100] @ full_blocks 21 @ [OplGenerate 2184]\<rparr>)"
proof -
  define st where "st = \<lparr>input = bytes ''w 0'' @ [0x0A], line_count = 2,
      l_buf = bytes ''w 120'', s_total = 86016, s_fill = 2184,
      events = [OplInit 44100, WavBegin 44100] @ full_blocks 21 @ [OplGenerate 2184]\<rparr>"
  define st1 where "st1 = st\<lparr>input := [], line_count := 3, l_buf := bytes ''w 0''\<rparr>"
  have "readInput st = (Inr True, st\<lparr>input := [],
      line_count := line_count st + 1, l_buf := bytes ''w 0''\<rparr>)"
    by (intro readInput_line)
       (simp_all add: st_def bytes_def line_char_def LINE_MAXIMUM_def INT32_MAX_def)
  then have ri: "readInput st = (Inr True, st1)" by (simp add: st_def st1_def)
  have steps: "main_loop_steps (Suc 0) 44100 60 0 0
      (\<lparr>input = bytes ''w 120'' @ 0x0A # bytes ''w 0'' @ [0x0A], line_count = 1,
        l_buf = bytes ''OPL2 60'', s_total = 0, s_fill = 0, events = [OplInit 44100]\<rparr>
        \<lparr>events := events \<lparr>input = bytes ''w 120'' @ 0x0A # bytes ''w 0'' @ [0x0A],
            line_count = 1, l_buf = bytes ''OPL2 60'', s_total = 0, s_fill = 0,
            events = [OplInit 44100]\<rparr> @ [WavBegin 44100]\<rparr>) = Some (120, 88200, st)"
    using steps_after_w120[of "bytes ''w 0'' @ [0x0A]"] by (simp add: st_def)
  have "retro_opl ''44100''
     (bytes ''OPL2 60'' @ 0x0A # bytes ''w 120'' @ 0x0A # bytes ''w 0'' @ [0x0A]) =
     (Inl NumericProblem, st1)
       \<and> events st1 = events st \<and> s_total st1 = s_total st \<and> s_fill st1 = s_fill st"
    by (rule wait_zero_rejected[OF _ _ header_60 steps ri,
          where ws = "[0x20]" and ds = "[0x30]" and tail = "[]"])
       (simp_all add: st1_def bytes_def is_blank_def is_digit_def dec_value_def)
  then show ?thesis by (simp add: st1_def st_def)
qed


text \<open>
  The claim C3 as stated fails on the two-line script \<^verbatim>\<open>OPL2 60\<close>, \<^verbatim>\<open>w 0\<close>: the run ends
  with the numeric-problem error at line 2 instead of accepting the line.
\<close>

theorem wait_zero_counterexample:
  "retro_opl ''44100'' (bytes ''OPL2 60'' @ 0x0A # bytes ''w 0'' @ [0x0A]) =
   (Inl NumericProblem,
     \<lparr>input = [], line_count = 2, l_buf = bytes ''w 0'', s_total = 0,
      s_fill = 0, events = [OplInit 44100, WavBegin 44100]\<rparr>)"
proof -
  define st1 where "st1 = \<lparr>input = bytes ''w 0'' @ [0x0A], line_count = 1,
      l_buf = bytes ''OPL2 60'', s_total = 0, s_fill = 0,
      events = [OplInit 44100, WavBegin 44100]\<rparr>"
  define st2 where "st2 = st1\<lparr>input := [], line_count := 2, l_buf := bytes ''w 0''\<rparr>"
  have "readInput st1 = (Inr True, st1\<lparr>input := [], line_count := line_count st1 + 1,
      l_buf := bytes ''w 0''\<rparr>)"
    by (intro readInput_line)
       (simp_all add: st1_def bytes_def line_char_def LINE_MAXIMUM_def INT32_MAX_def)
  then have ri: "readInput st1 = (Inr True, st2)" by (simp add: st1_def st2_def)
  have pl: "process_line 44100 60 0 0 st2 = (Inl NumericProblem, st2)"
    using sample_offset_zero[of 60]
    by (intro process_line_w0) (simp_all add: st2_def INT32_MAX_def)
  have ml: "main_loop 44100 60 0 0 st1 = (Inl NumericProblem, st2)"
    by (simp add: main_loop.simps[of 44100 60 0 0 st1] ri pl)
  show ?thesis
    using retro_opl_body[OF _ _ header_60, of "''44100''" 44100 "bytes ''w 0'' @ [0x0A]"] ml
    by (simp add: st1_def st2_def)
qed

text \<open>
  Claim C9. Take a control rate in \<open>[1, 1024]\<close>, an output rate of 44100 or 48000 and
  any state the main loop reaches from its start (clock and position 0) by processing
  \<open>n\<close> lines. If the next line read is a command \<^verbatim>\<open>w N\<close> with \<open>N \<ge> 1\<close> (the letter,
  blanks, the decimal digits of \<open>N\<close>, trailing blanks), then processing it never ends
  with the numeric-problem error: the branch \<open>soi \<le> current\<close> is not taken. For
  whenever the clock addition does not overflow and the conversion of the new clock
  passes its finiteness and range checks, the new position exceeds the current one by
  at least 43 for each added tick.
\<close>

theorem wait_advances_position:
  assumes "1 \<le> rate" "rate \<le> 1024" "sample_rate = 44100 \<or> sample_rate = 48000"
    and "main_loop_steps n sample_rate rate 0 0 st0 = Some (t, current, st)"
    and "readInput st = (Inr True, st1)"
    and "l_buf st1 = 0x77 # ws @ ds @ tail" "ws \<noteq> []" "list_all is_blank ws"
    and "ds \<noteq> []" "list_all is_digit ds" "list_all is_blank tail"
    and "1 \<le> dec_value ds"
  shows "fst (process_line sample_rate rate t current st1) \<noteq> Inl NumericProblem
       \<and> (\<forall>soi. t \<le> INT32_MAX - dec_value ds
                 \<and> sample_offset (t + dec_value ds) sample_rate rate = Inr soi
               \<longrightarrow> current + 43 * dec_value ds \<le> soi \<and> current < soi)"
proof
  define N where "N = dec_value ds"
  have inv: "0 \<le> t" "t \<le> INT32_MAX" "sample_offset t sample_rate rate = Inr current"
    using main_loop_reached_invariant[OF assms(1,2,3,4)] by simp_all
  have adv: "current + 43 * N \<le> soi \<and> current < soi"
    if "t \<le> INT32_MAX - N" "sample_offset (t + N) sample_rate rate = Inr soi" for soi
    using assms(1,2,3) inv(1) assms(12)[folded N_def] that(1) inv(3) that(2)
    by (rule sample_offset_advances)
  show "\<forall>soi. t \<le> INT32_MAX - dec_value ds
                 \<and> sample_offset (t + dec_value ds) sample_rate rate = Inr soi
               \<longrightarrow> current + 43 * dec_value ds \<le> soi \<and> current < soi"
    using adv unfolding N_def by blast
  show "fst (process_line sample_rate rate t current st1) \<noteq> Inl NumericProblem"
  proof (cases "INT32_MAX < N")
    case True
    then show ?thesis
      using process_line_wait_overflow[OF assms(6-11), of sample_rate rate t current]
      by (simp add: N_def)
  next
    case False
    then have v: "dec_value ds \<le> INT32_MAX" by (simp add: N_def)
    note pw = process_line_wait[OF assms(6-11) v, of sample_rate rate t current, folded N_def]
    show ?thesis
    proof (cases "t \<le> INT32_MAX - N")
      case False
      then show ?thesis using pw by simp
    next
      case True
      have s: "0 \<le> sample_rate" "sample_rate < 2 ^ 16" using assms(3) by auto
      have r: "0 < rate" "rate \<le> 2 ^ 22" using assms(1,2) by simp_all
      have tn: "0 \<le> t + N" "t + N \<le> INT32_MAX"
        using inv(1) assms(12) True by (simp_all add: N_def)
      note so = sample_offset_exact[OF tn s r]
      show ?thesis
      proof (cases "((t + N) * sample_rate) div rate \<le> INT32_MAX")
        case False
        then show ?thesis using pw True so by simp
      next
        case inr: True
        define soi where "soi = ((t + N) * sample_rate) div rate"
        have so': "sample_offset (t + N) sample_rate rate = Inr soi"
          using so inr by (simp add: soi_def)
        have gt: "current < soi" using adv[OF True so'] by simp
        then have c: "0 < soi - current" by simp
        obtain r2 s2 where cs: "computeSamples (soi - current) st1 = (r2, s2)"
          by (cases "computeSamples (soi - current) st1")
        have "r2 \<noteq> Inl NumericProblem"
          using computeSamples_not_numeric[OF c, of st1] cs by simp
        then show ?thesis using pw True so' gt cs by (cases r2) simp_all
      qed
    qed
  qed
qed

theorem wait_advances_position_witness:
  "fst (process_line 44100 60 120 88200
     \<lparr>input = [], line_count = 3, l_buf = bytes ''w 1'', s_total = 86016, s_fill = 2184,
      events = [OplInit 44100, WavBegin 44100] @ full_blocks 21 @ [OplGenerate 2184]\<rparr>)
   \<noteq> Inl NumericProblem"
proof -
  define st where "st = \<lparr>input = bytes ''w 1'' @ [0x0A], line_count = 2,
      l_buf = bytes ''w 120'', s_total = 86016, s_fill = 2184,
      events = [OplInit 44100, WavBegin 44100] @ full_blocks 21 @ [OplGenerate 2184]\<rparr>"
  define st1 where "st1 = st\<lparr>input := [], line_count := 3, l_buf := bytes ''w 1''\<rparr>"
  have "readInput st = (Inr True, st\<lparr>input := [],
      line_count := line_count st + 1, l_buf := bytes ''w 1''\<rparr>)"
    by (intro readInput_line)
       (simp_all add: st_def bytes_def line_char_def LINE_MAXIMUM_def INT32_MAX_def)
  then have ri: "readInput st = (Inr True, st1)" by (simp add: st_def st1_def)
  have steps: "main_loop_steps (Suc 0) 44100 60 0 0
      \<lparr>input = bytes ''w 120'' @ 0x0A # bytes ''w 1'' @ [0x0A], line_count = 1,
        l_buf = bytes ''OPL2 60'', s_total = 0, s_fill = 0,
        events = [OplInit 44100, WavBegin 44100]\<rparr> = Some (120, 88200, st)"
    using steps_after_w120[of "bytes ''w 1'' @ [0x0A]"] by (simp add: st_def)
  have l: "l_buf st1 = 0x77 # [0x20] @ [0x31] @ []" by (simp add: st1_def bytes_def)
  have "fst (process_line 44100 60 120 88200 st1) \<noteq> Inl NumericProblem
       \<and> (\<forall>soi. 120 \<le> INT32_MAX - dec_value [0x31]
                 \<and> sample_offset (120 + dec_value [0x31]) 44100 60 = Inr soi
               \<longrightarrow> 88200 + 43 * dec_value [0x31] \<le> soi \<and> 88200 < soi)"
    by (rule wait_advances_position[OF _ _ _ steps ri l])
       (simp_all add: is_blank_def is_digit_def dec_value_def)
  then show ?thesis by (simp add: st1_def st_def)
qed

section \<open>Properties of the VGM converter\<close>

subsection \<open>The event walk\<close>

lemma control_offset_exact:
  assumes "0 \<le> samp" "samp \<le> INT32_MAX"
  shows "control_offset samp = Inr ((samp * 980) div 44100)"
proof -
  have s: "samp < 2 ^ 31" using assms(2) by (simp add: INT32_MAX_def)
  have k0: "0 \<le> (samp * 980) div 44100" using assms(1) by (simp add: pos_imp_zdiv_nonneg_iff)
  have "(samp * 980) div 44100 \<le> samp"
  proof -
    have "samp * 980 \<le> samp * 44100" using assms(1) by (intro mult_left_mono) auto
    then have "(samp * 980) div 44100 \<le> (samp * 44100) div 44100" by (rule zdiv_mono1) simp
    then show ?thesis by simp
  qed
  then have k1: "(samp * 980) div 44100 < 2 ^ 31" using s by linarith
  have rc: "rate_convert samp 980 44100 = Some (of_int ((samp * 980) div 44100))"
    using assms(1) s k1 by (intro rate_convert_in_range) simp_all
  have "(of_int ((samp * 980) div 44100) :: rat) \<le> of_int 2147483647"
    using k1 by (simp only: of_int_le_iff) simp
  then have "(of_int ((samp * 980) div 44100) :: rat) \<le> 2147483647" by simp
  then show ?thesis using k0
    by (simp add: control_offset_def rc dle_def double_INT32_MAX int32_of_double_def)
qed

lemma decode_pass_Nil: "decode_pass st [] = (Inr (), st)"
  by (simp add: decode_pass.simps[of st "[]"])

lemma decode_pass_Cons:
  "decode_pass st (opc # rest) =
     (case decode_step st (opc # rest) of
        (Inl e, st1) \<Rightarrow> (Inl e, st1)
      | (Inr None, st1) \<Rightarrow> (Inr (), st1)
      | (Inr (Some rest'), st1) \<Rightarrow> decode_pass st1 rest')"
  by (simp add: decode_pass.simps[of st "opc # rest"])

text \<open>No read of the data section falls outside it.\<close>

lemma dispatch_in_bounds: "pd \<noteq> [] \<Longrightarrow> fst (dispatch st pd) \<noteq> Inl ReadBeyondData"
  by (cases pd) (auto simp: dispatch_def data_byte_def Let_def)

lemma control_offset_not_read: "control_offset samp \<noteq> Inl ReadBeyondData"
  by (simp add: control_offset_def Let_def)

lemma handle_wait_not_read: "fst (handle_wait st) \<noteq> Inl ReadBeyondData"
  using control_offset_not_read
  by (auto simp: handle_wait_def Let_def split: sum.splits)

lemma decode_step_in_bounds: "pd \<noteq> [] \<Longrightarrow> fst (decode_step st pd) \<noteq> Inl ReadBeyondData"
proof -
  assume pd: "pd \<noteq> []"
  obtain r s where d: "dispatch st pd = (r, s)" by (cases "dispatch st pd")
  have r: "r \<noteq> Inl ReadBeyondData" using dispatch_in_bounds[OF pd, of st] d by simp
  show ?thesis
  proof (cases r)
    case (Inl e)
    then show ?thesis using r d by (simp add: decode_step_def)
  next
    case (Inr x)
    show ?thesis
    proof (cases x)
      case None
      then show ?thesis using Inr d by (simp add: decode_step_def)
    next
      case (Some pd1)
      obtain r2 s2 where h: "handle_wait s = (r2, s2)" by (cases "handle_wait s")
      have "r2 \<noteq> Inl ReadBeyondData" using handle_wait_not_read[of s] h by simp
      then show ?thesis using Inr Some d h by (cases r2) (simp_all add: decode_step_def)
    qed
  qed
qed

lemma decode_pass_in_bounds: "fst (decode_pass st pd) \<noteq> Inl ReadBeyondData"
proof (induction st pd rule: decode_pass.induct)
  case (1 st pd)
  show ?case
  proof (cases pd)
    case Nil
    then show ?thesis by (simp add: decode_pass_Nil)
  next
    case (Cons opc rest)
    obtain r s where d: "decode_step st pd = (r, s)" by (cases "decode_step st pd")
    have r: "r \<noteq> Inl ReadBeyondData" using decode_step_in_bounds[of pd st] d Cons by simp
    show ?thesis
    proof (cases r)
      case (Inl e)
      then show ?thesis using r d Cons by (simp add: decode_pass_Cons)
    next
      case (Inr x)
      show ?thesis
      proof (cases x)
        case None
        then show ?thesis using Inr d Cons by (simp add: decode_pass_Cons)
      next
        case (Some rest')
        have "fst (decode_pass s rest') \<noteq> Inl ReadBeyondData"
          using "1.IH"[OF _ d[symmetric] Inr Some] Cons by simp
        then show ?thesis using Inr Some d Cons by (simp add: decode_pass_Cons)
      qed
    qed
  qed
qed

text \<open>
  Claim C8. When the walk reaches a general wait (0x61) or a register write (0x5A) with
  fewer than three bytes left in the data section (the opcode and fewer than two more),
  the decoder stops with the missing-parameters error; and in no state and on no data
  does a pass read a byte outside the data it was given.
\<close>

theorem missing_parameters:
  assumes "opc = 0x61 \<or> opc = 0x5A" "length rest < 2"
  shows "decode_pass st (opc # rest) =
           (Inl MissingParameters, if opc = 0x5A then st\<lparr>wait_cmd := False\<rparr> else st)
         \<and> (\<forall>s pd. fst (decode_pass s pd) \<noteq> Inl ReadBeyondData)"
  using assms decode_pass_in_bounds
  by (auto simp: decode_pass_Cons decode_step_def dispatch_def data_byte_def Let_def)

theorem missing_parameters_witness:
  "decode_pass vgm_init [0x5A, 0x20] = (Inl MissingParameters, vgm_init\<lparr>wait_cmd := False\<rparr>)
   \<and> decode_pass vgm_init [0x61, 0x20] = (Inl MissingParameters, vgm_init)"
  using missing_parameters[of "0x5A" "[0x20]" vgm_init] missing_parameters[of "0x61" "[0x20]" vgm_init]
  by simp

lemma dispatch_short_wait:
  assumes "0x70 \<le> opc" "opc \<le> 0x7F"
  shows "dispatch st (opc # rest) =
    (Inr (Some (opc # rest)), st\<lparr>wait_cmd := True, wait_req := (uint opc - 0x70) + 1\<rparr>)"
proof -
  have "opc \<noteq> 0x66"
  proof
    assume "opc = 0x66"
    with assms(1) show False by simp
  qed
  then show ?thesis using assms by (simp add: dispatch_def data_byte_def)
qed

text \<open>
  Claim C4, as amended. The shorthand wait covers the opcodes 0x70 to 0x7F, so 0x7A is
  not unassigned: a step at 0x7A is a wait request of 11 source-clock samples, handled
  like every other wait. An opcode outside the supported set (0x5A, 0x61, 0x62, 0x63,
  0x66 and 0x70 to 0x7F) that is reached during a pass aborts the decoder with the
  unsupported-opcode error carrying that opcode, and the state (the lines printed
  included) is as it was when the opcode was reached: nothing more is emitted.
\<close>

theorem unsupported_opcode_aborts:
  assumes "opc \<notin> {0x5A, 0x61, 0x62, 0x63, 0x66}" "opc < 0x70 \<or> 0x7F < opc"
  shows "decode_pass st (opc # rest) = (Inl (UnsupportedOpcode opc), st)
       \<and> decode_step st (0x7A # rest) =
           (case handle_wait (st\<lparr>wait_cmd := True, wait_req := 11\<rparr>) of
              (Inl e, st2) \<Rightarrow> (Inl e, st2)
            | (Inr u, st2) \<Rightarrow> (Inr (Some rest), st2))"
proof
  have "\<not> (0x70 \<le> opc \<and> opc \<le> 0x7F)" using assms(2) by auto
  then show "decode_pass st (opc # rest) = (Inl (UnsupportedOpcode opc), st)"
    using assms(1)
    by (auto simp: decode_pass_Cons decode_step_def dispatch_def data_byte_def)
next
  have "dispatch st (0x7A # rest) =
    (Inr (Some (0x7A # rest)), st\<lparr>wait_cmd := True, wait_req := (uint (0x7A :: byte) - 0x70) + 1\<rparr>)"
    by (rule dispatch_short_wait) simp_all
  then show "decode_step st (0x7A # rest) =
           (case handle_wait (st\<lparr>wait_cmd := True, wait_req := 11\<rparr>) of
              (Inl e, st2) \<Rightarrow> (Inl e, st2)
            | (Inr u, st2) \<Rightarrow> (Inr (Some rest), st2))"
    by (simp add: decode_step_def split: prod.splits sum.splits)
qed

theorem unsupported_opcode_aborts_witness:
  "decode_pass vgm_init [0x80, 0x66] = (Inl (UnsupportedOpcode 0x80), vgm_init)"
  using unsupported_opcode_aborts[of "0x80" vgm_init "[0x66]"] by simp

lemma control_offset_11: "control_offset 11 = Inr 0"
  using control_offset_exact[of 11] by (simp add: INT32_MAX_def)

text \<open>
  The claim as stated fails on the data \<^verbatim>\<open>7A 5A 20 01 66\<close>: the pass does not abort
  at 0x7A; it counts 11 samples, goes on, prints the register write that follows and
  ends at the end marker.
\<close>

theorem short_wait_7A_counterexample:
  "decode_pass (vgm_init\<lparr>out := [Header 980]\<rparr>) [0x7A, 0x5A, 0x20, 0x01, 0x66] =
     (Inr (), \<lparr>wait_cmd = False, wait_req = 11, samp_offs = 11, ctl_offs = 0,
               out = [Header 980, RegWrite 0x20 0x01]\<rparr>)"
proof -
  define st0 where "st0 = vgm_init\<lparr>out := [Header 980]\<rparr>"
  define st1 where "st1 = st0\<lparr>wait_cmd := True, wait_req := 11, samp_offs := 11\<rparr>"
  define st2 where "st2 = st1\<lparr>wait_cmd := False, out := out st1 @ [RegWrite 0x20 0x01]\<rparr>"
  have d: "dispatch st0 [0x7A, 0x5A, 0x20, 0x01, 0x66] =
    (Inr (Some [0x7A, 0x5A, 0x20, 0x01, 0x66]),
     st0\<lparr>wait_cmd := True, wait_req := (uint (0x7A :: byte) - 0x70) + 1\<rparr>)"
    by (rule dispatch_short_wait) simp_all
  have h: "handle_wait (st0\<lparr>wait_cmd := True, wait_req := 11\<rparr>) = (Inr (), st1)"
    by (simp add: handle_wait_def st0_def st1_def vgm_init_def Let_def INT32_MAX_def
          control_offset_11)
  have s1: "decode_step st0 [0x7A, 0x5A, 0x20, 0x01, 0x66] = (Inr (Some [0x5A, 0x20, 0x01, 0x66]), st1)"
    using d h by (simp add: decode_step_def)
  have s2: "decode_step st1 [0x5A, 0x20, 0x01, 0x66] = (Inr (Some [0x66]), st2)"
    by (simp add: decode_step_def dispatch_def data_byte_def handle_wait_def Let_def
          st1_def st2_def)
  have s3: "decode_step st2 [0x66] = (Inr None, st2)"
    by (simp add: decode_step_def dispatch_def data_byte_def)
  have "decode_pass st0 [0x7A, 0x5A, 0x20, 0x01, 0x66] = (Inr (), st2)"
    by (simp add: decode_pass_Cons s1 s2 s3)
  then show ?thesis
    by (simp add: st0_def st1_def st2_def vgm_init_def)
qed

subsection \<open>The loop offset\<close>

lemma check_offsets_ok:
  assumes "check_offsets flen doffs l0 = Inr h"
  shows "file_len h = flen" "data_offs h = doffs"
    "loop_abs h = (if l0 \<le> 0 then doffs else l0)"
    "data_offs h \<le> loop_abs h" "loop_abs h < file_len h"
    "loop_offs h = loop_abs h - data_offs h" "data_len h = file_len h - data_offs h"
    "data_len h \<le> MAX_DATA_SECTION"
  using assms
  by (auto simp: check_offsets_def Let_def not_less not_le split: if_splits)

lemma check_offsets_reject:
  assumes "(if l0 \<le> 0 then doffs else l0) < doffs \<or> flen \<le> (if l0 \<le> 0 then doffs else l0)"
  shows "check_offsets flen doffs l0 = Inl InvalidLoopOffset"
  using assms by (auto simp: check_offsets_def Let_def)

lemma resolve_header_checked:
  assumes "resolve_header file = Inr h"
  shows "\<exists>lenf loopf doffs. readHead file 0x04 = Inr lenf \<and> readHead file 0x1c = Inr loopf
     \<and> check_offsets (lenf + 4) doffs (loop_offset_field loopf) = Inr h
     \<and> (\<forall>ver f. readHead file 0x08 = Inr ver \<and> 0x150 \<le> ver \<and> readHead file 0x34 = Inr f
            \<longrightarrow> doffs = data_offset_field f)"
  using assms
  by (auto simp: resolve_header_def split: sum.splits if_splits)

lemma resolve_header_fields:
  assumes "readHead file 0 = Inr 0x206d6756" "readHead file 0x08 = Inr ver"
    and "readHead file 0x04 = Inr lenf" "readHead file 0x1c = Inr loopf"
    and "0x150 \<le> ver \<longrightarrow> readHead file 0x34 = Inr dataf"
  shows "resolve_header file =
           check_offsets (lenf + 4) (if 0x150 \<le> ver then data_offset_field dataf else 0x40)
             (loop_offset_field loopf)"
  using assms by (simp add: resolve_header_def)

lemma header_section_bounds:
  fixes h :: vgm_header
  assumes "data_offs h \<le> loop_abs h" "loop_abs h < file_len h"
    and "loop_offs h = loop_abs h - data_offs h" "data_len h = file_len h - data_offs h"
  shows "unat (data_offs h) + unat (data_len h) = unat (file_len h)"
    and "unat (data_offs h) + unat (loop_offs h) = unat (loop_abs h)"
    and "unat (loop_offs h) < unat (data_len h)"
proof -
  have le: "data_offs h \<le> file_len h" using assms(1,2) by simp
  have a: "unat (data_len h) = unat (file_len h) - unat (data_offs h)"
    unfolding assms(4) using le by (rule unat_sub)
  have b: "unat (loop_offs h) = unat (loop_abs h) - unat (data_offs h)"
    unfolding assms(3) using assms(1) by (rule unat_sub)
  have n1: "unat (data_offs h) \<le> unat (loop_abs h)" using assms(1) by (simp add: word_le_nat_alt)
  have n2: "unat (loop_abs h) < unat (file_len h)" using assms(2) by (simp add: word_less_nat_alt)
  show "unat (data_offs h) + unat (data_len h) = unat (file_len h)" using a n1 n2 by simp
  show "unat (data_offs h) + unat (loop_offs h) = unat (loop_abs h)" using b n1 by simp
  show "unat (loop_offs h) < unat (data_len h)" using a b n1 n2 by simp
qed

lemma vgm2opl_header_error:
  assumes "arg = ''1'' \<or> arg = ''2''" "resolve_header file = Inl e"
  shows "vgm2opl arg file = (Inl e, vgm_init)"
  using assms by (auto simp: vgm2opl_def)

text \<open>
  A small file of version 1.51 for the examples: 69 bytes, both offset fields zero, the
  data section \<^verbatim>\<open>62 5A 20 01 66\<close> at 0x40. The second file has the loop offset field
  0x100 instead, which points behind the end of the file.
\<close>

definition example_vgm :: "byte list" where
  "example_vgm =
     [0x56, 0x67, 0x6D, 0x20, 0x41, 0, 0, 0, 0x51, 0x01, 0, 0] @ replicate 16 0
     @ [0, 0, 0, 0] @ replicate 20 0 @ [0, 0, 0, 0] @ replicate 8 0
     @ [0x62, 0x5A, 0x20, 0x01, 0x66]"

definition example_vgm_bad_loop :: "byte list" where
  "example_vgm_bad_loop = example_vgm[0x1D := 1]"

lemma example_vgm_heads:
  "readHead example_vgm 0 = Inr 0x206d6756" "readHead example_vgm 0x04 = Inr 0x41"
  "readHead example_vgm 0x08 = Inr 0x151" "readHead example_vgm 0x1c = Inr 0"
  "readHead example_vgm 0x34 = Inr 0"
  by code_simp+

lemma example_vgm_bad_loop_heads:
  "readHead example_vgm_bad_loop 0 = Inr 0x206d6756"
  "readHead example_vgm_bad_loop 0x04 = Inr 0x41"
  "readHead example_vgm_bad_loop 0x08 = Inr 0x151"
  "readHead example_vgm_bad_loop 0x1c = Inr 0x100"
  "readHead example_vgm_bad_loop 0x34 = Inr 0"
  by code_simp+

lemma example_vgm_header:
  "resolve_header example_vgm =
     Inr \<lparr>file_len = 0x45, data_offs = 0x40, loop_abs = 0x40, loop_offs = 0, data_len = 5\<rparr>"
  by (simp add: resolve_header_fields[OF example_vgm_heads(1,3,2,4)] example_vgm_heads(5)
        check_offsets_def data_offset_field_def loop_offset_field_def MAX_DATA_SECTION_def)

text \<open>
  Claim C5. Whenever header resolution succeeds, the absolute loop offset lies in the
  data section: it is at least the data offset and below the file length, which is
  where the data section ends (the lengths add up without wrapping around), so the loop
  offset relative to the data section is below the length of the data section. A loop
  offset field that stores 0 gives the data offset, and from version 1.50 on a data
  offset field \<open>f\<close> with \<open>f + 0x34 \<le> 52\<close> gives the data offset 0x40. When the header
  fields can be read and the loop offset they give is below the data offset or not
  below the file length, the converter stops with the invalid-loop-offset error, having
  printed nothing; as with every error of header resolution, no event is decoded.
\<close>

theorem loop_offset_within_data:
  assumes "arg = ''1'' \<or> arg = ''2''"
  shows
  "(\<forall>h. resolve_header file = Inr h \<longrightarrow>
       data_offs h \<le> loop_abs h \<and> loop_abs h < file_len h
     \<and> unat (data_offs h) + unat (data_len h) = unat (file_len h)
     \<and> unat (data_offs h) + unat (loop_offs h) = unat (loop_abs h)
     \<and> unat (loop_offs h) < unat (data_len h)
     \<and> (readHead file 0x1c = Inr 0 \<longrightarrow> loop_abs h = data_offs h)
     \<and> (\<forall>ver f. readHead file 0x08 = Inr ver \<and> 0x150 \<le> ver
             \<and> readHead file 0x34 = Inr f \<and> f + 0x34 \<le> 52 \<longrightarrow> data_offs h = 0x40))
   \<and> (\<forall>ver lenf loopf dataf doffs labs.
         readHead file 0 = Inr 0x206d6756 \<and> readHead file 0x08 = Inr ver
       \<and> readHead file 0x04 = Inr lenf \<and> readHead file 0x1c = Inr loopf
       \<and> (0x150 \<le> ver \<longrightarrow> readHead file 0x34 = Inr dataf)
       \<and> doffs = (if 0x150 \<le> ver then data_offset_field dataf else 0x40)
       \<and> labs = (if loopf + 0x1c \<le> 0x1c then doffs else loopf + 0x1c)
       \<and> (labs < doffs \<or> lenf + 4 \<le> labs)
       \<longrightarrow> vgm2opl arg file = (Inl InvalidLoopOffset, vgm_init))
   \<and> (\<forall>e. resolve_header file = Inl e \<longrightarrow> vgm2opl arg file = (Inl e, vgm_init))"
proof (intro conjI allI impI)
  fix h
  assume r: "resolve_header file = Inr h"
  from resolve_header_checked[OF r] obtain lenf loopf doffs where
    lf: "readHead file 0x1c = Inr loopf"
    and co: "check_offsets (lenf + 4) doffs (loop_offset_field loopf) = Inr h"
    and df: "\<forall>ver f. readHead file 0x08 = Inr ver \<and> 0x150 \<le> ver \<and> readHead file 0x34 = Inr f
            \<longrightarrow> doffs = data_offset_field f"
    by blast
  note ok = check_offsets_ok[OF co]
  note sb = header_section_bounds[OF ok(4,5,6,7)]
  show "data_offs h \<le> loop_abs h" by (rule ok(4))
  show "loop_abs h < file_len h" by (rule ok(5))
  show "unat (data_offs h) + unat (data_len h) = unat (file_len h)" by (rule sb(1))
  show "unat (data_offs h) + unat (loop_offs h) = unat (loop_abs h)" by (rule sb(2))
  show "unat (loop_offs h) < unat (data_len h)" by (rule sb(3))
  show "loop_abs h = data_offs h" if "readHead file 0x1c = Inr 0"
    using that lf ok(2,3) by (simp add: loop_offset_field_def)
  show "data_offs h = 0x40"
    if "readHead file 0x08 = Inr ver \<and> 0x150 \<le> ver \<and> readHead file 0x34 = Inr f \<and> f + 0x34 \<le> 52"
    for ver f
    using that df ok(2) by (auto simp: data_offset_field_def Let_def)
next
  fix ver lenf loopf dataf doffs labs :: "32 word"
  assume a: "readHead file 0 = Inr 0x206d6756 \<and> readHead file 0x08 = Inr ver
       \<and> readHead file 0x04 = Inr lenf \<and> readHead file 0x1c = Inr loopf
       \<and> (0x150 \<le> ver \<longrightarrow> readHead file 0x34 = Inr dataf)
       \<and> doffs = (if 0x150 \<le> ver then data_offset_field dataf else 0x40)
       \<and> labs = (if loopf + 0x1c \<le> 0x1c then doffs else loopf + 0x1c)
       \<and> (labs < doffs \<or> lenf + 4 \<le> labs)"
  then have rh: "resolve_header file = check_offsets (lenf + 4) doffs (loop_offset_field loopf)"
    using resolve_header_fields[where ver = ver and dataf = dataf] by simp
  have eq: "(if loop_offset_field loopf \<le> 0 then doffs else loop_offset_field loopf) = labs"
    using a by (simp add: loop_offset_field_def Let_def)
  have outside: "labs < doffs \<or> lenf + 4 \<le> labs" using a by blast
  have "check_offsets (lenf + 4) doffs (loop_offset_field loopf) = Inl InvalidLoopOffset"
    by (rule check_offsets_reject) (simp only: eq outside)
  then show "vgm2opl arg file = (Inl InvalidLoopOffset, vgm_init)"
    using rh assms by (intro vgm2opl_header_error) simp_all
next
  fix e assume "resolve_header file = Inl e"
  then show "vgm2opl arg file = (Inl e, vgm_init)" using assms by (intro vgm2opl_header_error)
qed

theorem loop_offset_within_data_witness:
  "resolve_header example_vgm =
     Inr \<lparr>file_len = 0x45, data_offs = 0x40, loop_abs = 0x40, loop_offs = 0, data_len = 5\<rparr>
   \<and> unat (0x40 :: 32 word) + unat (5 :: 32 word) = unat (0x45 :: 32 word)
   \<and> vgm2opl ''2'' example_vgm_bad_loop = (Inl InvalidLoopOffset, vgm_init)"
proof -
  let ?h = "\<lparr>file_len = 0x45, data_offs = 0x40, loop_abs = 0x40, loop_offs = 0,
              data_len = (5 :: 32 word)\<rparr>"
  have two: "''2'' = ''1'' \<or> ''2'' = ''2''" by simp
  note T = loop_offset_within_data[OF two, of example_vgm]
  note B = loop_offset_within_data[OF two, of example_vgm_bad_loop]
  from T have "resolve_header example_vgm = Inr ?h \<longrightarrow>
       data_offs ?h \<le> loop_abs ?h \<and> loop_abs ?h < file_len ?h
     \<and> unat (data_offs ?h) + unat (data_len ?h) = unat (file_len ?h)" by blast
  then have s: "unat (0x40 :: 32 word) + unat (5 :: 32 word) = unat (0x45 :: 32 word)"
    using example_vgm_header by simp
  from B have "readHead example_vgm_bad_loop 0 = Inr 0x206d6756
       \<and> readHead example_vgm_bad_loop 0x08 = Inr 0x151
       \<and> readHead example_vgm_bad_loop 0x04 = Inr 0x41
       \<and> readHead example_vgm_bad_loop 0x1c = Inr 0x100
       \<and> (0x150 \<le> (0x151 :: 32 word) \<longrightarrow> readHead example_vgm_bad_loop 0x34 = Inr 0)
       \<and> (0x40 :: 32 word) = (if 0x150 \<le> (0x151 :: 32 word) then data_offset_field 0 else 0x40)
       \<and> (0x11c :: 32 word) = (if (0x100 :: 32 word) + 0x1c \<le> 0x1c then 0x40 else 0x100 + 0x1c)
       \<and> ((0x11c :: 32 word) < 0x40 \<or> (0x41 :: 32 word) + 4 \<le> 0x11c)
       \<longrightarrow> vgm2opl ''2'' example_vgm_bad_loop = (Inl InvalidLoopOffset, vgm_init)" by blast
  then have b: "vgm2opl ''2'' example_vgm_bad_loop = (Inl InvalidLoopOffset, vgm_init)"
    by (simp add: example_vgm_bad_loop_heads data_offset_field_def)
  show ?thesis using example_vgm_header s b by simp
qed

subsection \<open>Wait accounting over two passes\<close>

text \<open>The control cycles waited for by the lines printed: the sum of the \<^verbatim>\<open>w\<close> lines.\<close>

fun wait_delta :: "out_line \<Rightarrow> int" where
  "wait_delta (Wait n) = n"
| "wait_delta (Header r) = 0"
| "wait_delta (RegWrite a v) = 0"

definition wait_total :: "out_line list \<Rightarrow> int" where
  "wait_total ls = sum_list (map wait_delta ls)"

text \<open>
  A specification to compare the walk with, defined on the event stream alone and not
  taken from the loop of \<^verbatim>\<open>main\<close>: the wait requests of the events of a pass, added up, in
  samples at 44100 Hz. The end marker 0x66 ends the pass; 0x70..0x7F ask for 1 to 16
  samples, 0x63 for 882, 0x62 for 735, 0x61 for the 16-bit count in its two operand
  bytes; the register write 0x5A has two operand bytes and asks for nothing. A stream
  that the walk rejects (an opcode outside this set, operands cut off) has no meaning
  here and is given 0 from that point.
\<close>

fun pass_samples :: "byte list \<Rightarrow> int" where
  "pass_samples [] = 0"
| "pass_samples (opc # rest) =
     (if opc = 0x66 then 0
      else if 0x70 \<le> opc \<and> opc \<le> 0x7f then (uint opc - 0x70) + 1 + pass_samples rest
      else if opc = 0x63 then 882 + pass_samples rest
      else if opc = 0x62 then 735 + pass_samples rest
      else if opc = 0x61 then
        (case rest of
           b1 # b2 # rest' \<Rightarrow> (uint b1 OR push_bit 8 (uint b2)) + pass_samples rest'
         | _ \<Rightarrow> 0)
      else if opc = 0x5a then
        (case rest of b1 # b2 # rest' \<Rightarrow> pass_samples rest' | _ \<Rightarrow> 0)
      else 0)"

declare pass_samples.simps(2) [simp del]

text \<open>
  The wait accounting is in step: the sample offset is within range, the control
  position is the converted sample offset, and the waits printed add up to it.
\<close>

definition accounted :: "vgm_state \<Rightarrow> bool" where
  "accounted st \<longleftrightarrow>
     0 \<le> samp_offs st \<and> samp_offs st \<le> INT32_MAX
   \<and> ctl_offs st = (samp_offs st * 980) div 44100
   \<and> wait_total (out st) = ctl_offs st"

lemma wait_total_append: "wait_total (xs @ ys) = wait_total xs + wait_total ys"
  by (simp add: wait_total_def)

lemma wait_total_simps:
  "wait_total [] = 0" "wait_total [Wait n] = n" "wait_total [RegWrite a v] = 0"
  by (simp_all add: wait_total_def)

lemma accounted_init: "accounted (vgm_init\<lparr>out := [Header 980]\<rparr>)"
  by (simp add: accounted_def vgm_init_def wait_total_def INT32_MAX_def)

lemma wait_request_nonneg: "0 \<le> uint (b1 :: byte) OR push_bit 8 (uint (b2 :: byte))"
  by simp

lemma short_wait_nonneg: "0x70 \<le> (opc :: byte) \<Longrightarrow> 0 \<le> (uint opc - 0x70) + 1"
  by (simp add: word_le_def)

text \<open>What the opcode dispatch leaves behind when the loop body goes on.\<close>

lemma dispatch_continue:
  assumes "dispatch st pd = (Inr (Some pd1), st1)"
  shows "samp_offs st1 = samp_offs st" "ctl_offs st1 = ctl_offs st"
    "\<exists>ys. out st1 = out st @ ys \<and> wait_total ys = 0"
    "wait_cmd st1 \<longrightarrow> 0 \<le> wait_req st1"
    "pass_samples pd = (if wait_cmd st1 then wait_req st1 else 0) + pass_samples (tl pd1)"
proof -
  from assms obtain opc r where pd: "pd = opc # r"
    by (cases pd) (auto simp: dispatch_def data_byte_def)
  note d = assms[unfolded pd dispatch_def data_byte_def]
  have n66: "opc \<noteq> 0x66" using d by (auto split: if_splits)
  consider (short) "0x70 \<le> opc \<and> opc \<le> 0x7f"
    | (w63) "\<not> (0x70 \<le> opc \<and> opc \<le> 0x7f)" "opc = 0x63"
    | (w62) "\<not> (0x70 \<le> opc \<and> opc \<le> 0x7f)" "opc = 0x62"
    | (w61) "\<not> (0x70 \<le> opc \<and> opc \<le> 0x7f)" "opc = 0x61"
    | (reg) "\<not> (0x70 \<le> opc \<and> opc \<le> 0x7f)" "opc = 0x5a"
    | (other) "\<not> (0x70 \<le> opc \<and> opc \<le> 0x7f)" "opc \<noteq> 0x63" "opc \<noteq> 0x62" "opc \<noteq> 0x61"
        "opc \<noteq> 0x5a"
    by blast
  then have
    "samp_offs st1 = samp_offs st \<and> ctl_offs st1 = ctl_offs st
     \<and> (\<exists>ys. out st1 = out st @ ys \<and> wait_total ys = 0)
     \<and> (wait_cmd st1 \<longrightarrow> 0 \<le> wait_req st1)
     \<and> pass_samples pd = (if wait_cmd st1 then wait_req st1 else 0) + pass_samples (tl pd1)"
  proof cases
    case short
    then have "pd1 = opc # r" "st1 = st\<lparr>wait_cmd := True, wait_req := (uint opc - 0x70) + 1\<rparr>"
      using d n66 by simp_all
    then show ?thesis using short n66 short_wait_nonneg[of opc]
      by (simp add: pd pass_samples.simps(2) wait_total_simps)
  next
    case w63
    then have "pd1 = opc # r" "st1 = st\<lparr>wait_cmd := True, wait_req := 882\<rparr>"
      using d by simp_all
    then show ?thesis using w63 by (simp add: pd pass_samples.simps(2) wait_total_simps)
  next
    case w62
    then have "pd1 = opc # r" "st1 = st\<lparr>wait_cmd := True, wait_req := 735\<rparr>"
      using d by simp_all
    then show ?thesis using w62 by (simp add: pd pass_samples.simps(2) wait_total_simps)
  next
    case w61
    from d w61 have len: "\<not> length (opc # r) < 3" by (auto split: if_splits)
    then obtain b1 b2 r' where r: "r = b1 # b2 # r'"
      by (cases r; cases "tl r") auto
    have "pd1 = drop 2 (opc # r)"
      "st1 = st\<lparr>wait_cmd := True, wait_req := uint b1 OR push_bit 8 (uint b2)\<rparr>"
      using d w61 by (simp_all add: r)
    then show ?thesis using w61 wait_request_nonneg[of b1 b2]
      by (simp add: pd r pass_samples.simps(2) wait_total_simps)
  next
    case reg
    from d reg have len: "\<not> length (opc # r) < 3" by (auto simp: Let_def split: if_splits)
    then obtain b1 b2 r' where r: "r = b1 # b2 # r'"
      by (cases r; cases "tl r") auto
    have "pd1 = drop 2 (opc # r)"
      "st1 = st\<lparr>wait_cmd := False, out := out st @ [RegWrite b1 b2]\<rparr>"
      using d reg by (simp_all add: r Let_def)
    then show ?thesis using reg
      by (simp add: pd r pass_samples.simps(2) wait_total_simps)
  next
    case other
    have c: "(0x70 \<le> opc \<and> opc \<le> 0x7f) = False" using other(1) by simp
    have False using n66 other(2-) d by (simp add: c)
    then show ?thesis ..
  qed
  then show "samp_offs st1 = samp_offs st" "ctl_offs st1 = ctl_offs st"
    "\<exists>ys. out st1 = out st @ ys \<and> wait_total ys = 0"
    "wait_cmd st1 \<longrightarrow> 0 \<le> wait_req st1"
    "pass_samples pd = (if wait_cmd st1 then wait_req st1 else 0) + pass_samples (tl pd1)"
    by blast+
qed

lemma dispatch_end:
  assumes "dispatch st pd = (Inr None, st1)"
  shows "st1 = st" "pass_samples pd = 0"
proof -
  from assms obtain opc r where pd: "pd = opc # r"
    by (cases pd) (auto simp: dispatch_def data_byte_def)
  note d = assms[unfolded pd dispatch_def data_byte_def]
  have "opc = 0x66 \<and> st1 = st"
    using d by (auto simp: Let_def split: if_splits sum.splits)
  then show "st1 = st" "pass_samples pd = 0" by (simp_all add: pd pass_samples.simps(2))
qed


text \<open>The rest of the loop body keeps the accounting in step.\<close>

lemma control_position_mono:
  fixes s w :: int
  assumes "0 \<le> w"
  shows "(s * 980) div 44100 \<le> ((s + w) * 980) div 44100"
proof -
  have "s * 980 \<le> (s + w) * 980" using assms by simp
  then show ?thesis by (rule zdiv_mono1) simp
qed

lemma handle_wait_accounted:
  assumes "handle_wait st = (Inr (), st')" "accounted st" "wait_cmd st \<longrightarrow> 0 \<le> wait_req st"
  shows "accounted st'"
    "samp_offs st' = samp_offs st + (if wait_cmd st then wait_req st else 0)"
    "\<exists>ys. out st' = out st @ ys \<and> wait_total ys = ctl_offs st' - ctl_offs st"
proof -
  have "accounted st'
     \<and> samp_offs st' = samp_offs st + (if wait_cmd st then wait_req st else 0)
     \<and> (\<exists>ys. out st' = out st @ ys \<and> wait_total ys = ctl_offs st' - ctl_offs st)"
  proof (cases "wait_cmd st \<and> 1 \<le> wait_req st")
    case False
    then have w0: "wait_cmd st \<longrightarrow> wait_req st = 0" using assms(3) by auto
    from False have "st' = (if wait_cmd st then st\<lparr>wait_cmd := False\<rparr> else st)"
      using assms(1) by (auto simp: handle_wait_def Let_def split: if_splits)
    then show ?thesis using assms(2) w0
      by (auto simp: accounted_def wait_total_simps)
  next
    case True
    define s where "s = samp_offs st + wait_req st"
    define st2 where "st2 = st\<lparr>samp_offs := s\<rparr>"
    define new_ctl where "new_ctl = (s * 980) div 44100"
    from True have n1: "\<not> wait_req st < 1" by simp
    have fits: "samp_offs st \<le> INT32_MAX - wait_req st"
      using assms(1) True n1 by (auto simp: handle_wait_def Let_def split: if_splits)
    have s0: "0 \<le> s" and s1: "s \<le> INT32_MAX"
      using fits True assms(2) by (simp_all add: s_def accounted_def)
    have co: "control_offset s = Inr new_ctl"
      unfolding new_ctl_def using s0 s1 by (rule control_offset_exact)
    have mono: "ctl_offs st \<le> new_ctl"
      using control_position_mono[of "wait_req st" "samp_offs st"] True assms(2)
      by (simp add: new_ctl_def s_def accounted_def)
    have hw: "handle_wait st =
        (if ctl_offs st < new_ctl
         then (Inr (), st2\<lparr>out := out st @ [Wait (new_ctl - ctl_offs st)], ctl_offs := new_ctl\<rparr>)
         else (Inr (), st2))"
      using True n1 fits co by (simp add: handle_wait_def Let_def st2_def s_def)
    show ?thesis
    proof (cases "ctl_offs st < new_ctl")
      case True
      then have "st' = st2\<lparr>out := out st @ [Wait (new_ctl - ctl_offs st)], ctl_offs := new_ctl\<rparr>"
        using hw assms(1) by simp
      then show ?thesis using assms(2) s0 s1 \<open>wait_cmd st \<and> 1 \<le> wait_req st\<close>
        by (simp add: accounted_def st2_def wait_total_append wait_total_simps new_ctl_def s_def)
    next
      case False
      then have e: "new_ctl = ctl_offs st" using mono by simp
      from False have "st' = st2" using hw assms(1) by simp
      then show ?thesis using assms(2) s0 s1 e \<open>wait_cmd st \<and> 1 \<le> wait_req st\<close>
        by (simp add: accounted_def st2_def wait_total_simps new_ctl_def s_def)
    qed
  qed
  then show "accounted st'"
    "samp_offs st' = samp_offs st + (if wait_cmd st then wait_req st else 0)"
    "\<exists>ys. out st' = out st @ ys \<and> wait_total ys = ctl_offs st' - ctl_offs st"
    by blast+
qed

text \<open>One round of the loop, and then a whole pass.\<close>

lemma decode_step_accounted:
  assumes "decode_step st pd = (Inr (Some rest), st')" "accounted st"
  shows "accounted st'"
    "samp_offs st' + pass_samples rest = samp_offs st + pass_samples pd"
    "\<exists>ys. out st' = out st @ ys \<and> wait_total ys = ctl_offs st' - ctl_offs st"
proof -
  from assms(1) obtain pd1 st1 where d: "dispatch st pd = (Inr (Some pd1), st1)"
    and h: "handle_wait st1 = (Inr (), st')" and rest: "rest = tl pd1"
    by (auto simp: decode_step_def split: prod.splits sum.splits option.splits)
  note dc = dispatch_continue[OF d]
  from dc(3) obtain ys1 where ys1: "out st1 = out st @ ys1" "wait_total ys1 = 0" by blast
  have a1: "accounted st1"
    using assms(2) dc(1,2) ys1 by (simp add: accounted_def wait_total_append)
  note hw = handle_wait_accounted[OF h a1 dc(4)]
  from hw(3) obtain ys2 where ys2: "out st' = out st1 @ ys2"
    "wait_total ys2 = ctl_offs st' - ctl_offs st1" by blast
  show "accounted st'" by (rule hw(1))
  show "samp_offs st' + pass_samples rest = samp_offs st + pass_samples pd"
    using hw(2) dc(1,5) rest by simp
  have "out st' = out st @ (ys1 @ ys2)" using ys1 ys2 by simp
  moreover have "wait_total (ys1 @ ys2) = ctl_offs st' - ctl_offs st"
    using ys1 ys2 dc(2) by (simp add: wait_total_append)
  ultimately show "\<exists>ys. out st' = out st @ ys \<and> wait_total ys = ctl_offs st' - ctl_offs st"
    by blast
qed

lemma decode_step_end:
  assumes "decode_step st pd = (Inr None, st')"
  shows "st' = st" "pass_samples pd = 0"
proof -
  from assms have d: "dispatch st pd = (Inr None, st')"
    by (auto simp: decode_step_def split: prod.splits sum.splits option.splits)
  show "st' = st" "pass_samples pd = 0" using dispatch_end[OF d] by simp_all
qed

lemma decode_pass_accounted:
  "decode_pass st pd = (Inr (), st') \<Longrightarrow> accounted st \<Longrightarrow>
     accounted st' \<and> samp_offs st' = samp_offs st + pass_samples pd
   \<and> (\<exists>ys. out st' = out st @ ys \<and> wait_total ys = ctl_offs st' - ctl_offs st)"
proof (induction st pd rule: decode_pass.induct)
  case (1 st pd)
  show ?case
  proof (cases pd)
    case Nil
    then have "st' = st" using "1.prems"(1) by (simp add: decode_pass_Nil)
    then show ?thesis using "1.prems"(2) Nil by (simp add: wait_total_simps)
  next
    case (Cons opc r)
    then have pos: "0 < length pd" by simp
    obtain res st1 where ds: "decode_step st pd = (res, st1)" by (cases "decode_step st pd")
    note P = "1.prems"(1)[unfolded decode_pass.simps[of st pd]]
    show ?thesis
    proof (cases res)
      case (Inl e)
      then show ?thesis using P pos ds by simp
    next
      case (Inr opt)
      show ?thesis
      proof (cases opt)
        case None
        then have "st' = st1" using P pos ds Inr by simp
        moreover have "st1 = st" "pass_samples pd = 0"
          using decode_step_end[of st pd st1] ds Inr None by simp_all
        ultimately show ?thesis using "1.prems"(2) by (simp add: wait_total_simps)
      next
        case (Some rest)
        then have step: "decode_step st pd = (Inr (Some rest), st1)" using ds Inr by simp
        have run: "decode_pass st1 rest = (Inr (), st')" using P pos step by simp
        note sa = decode_step_accounted[OF step "1.prems"(2)]
        have ih: "accounted st' \<and> samp_offs st' = samp_offs st1 + pass_samples rest
          \<and> (\<exists>ys. out st' = out st1 @ ys \<and> wait_total ys = ctl_offs st' - ctl_offs st1)"
          using "1.IH"[OF pos step[symmetric] refl refl run sa(1)] .
        from sa(3) obtain ys1 where ys1: "out st1 = out st @ ys1"
          "wait_total ys1 = ctl_offs st1 - ctl_offs st" by blast
        from ih obtain ys2 where ys2: "out st' = out st1 @ ys2"
          "wait_total ys2 = ctl_offs st' - ctl_offs st1" by blast
        have "out st' = out st @ (ys1 @ ys2)" using ys1 ys2 by simp
        moreover have "wait_total (ys1 @ ys2) = ctl_offs st' - ctl_offs st"
          using ys1 ys2 by (simp add: wait_total_append)
        ultimately have "\<exists>ys. out st' = out st @ ys \<and> wait_total ys = ctl_offs st' - ctl_offs st"
          by blast
        then show ?thesis using ih sa(2) by simp
      qed
    qed
  qed
qed


text \<open>The two passes of repeat count 2, and the data they walk.\<close>

lemma passes_two:
  "passes 0 2 pData loffs st =
     (case decode_pass st pData of
        (Inl e, st1) \<Rightarrow> (Inl e, st1)
      | (Inr u, st1) \<Rightarrow>
          (case decode_pass st1 (drop loffs pData) of
             (Inl e, st2) \<Rightarrow> (Inl e, st2)
           | (Inr u, st2) \<Rightarrow> (Inr (), st2)))"
  by (simp add: passes.simps[of 0] passes.simps[of 1] passes.simps[of 2]
        split: prod.splits sum.splits)

lemma vgm2opl_two:
  assumes "vgm2opl ''2'' file = (Inr (), st)"
  shows "\<exists>h pData. resolve_header file = Inr h \<and> load_data file h = Inr pData
     \<and> passes 0 2 pData (unat (loop_offs h)) (vgm_init\<lparr>out := [Header 980]\<rparr>) = (Inr (), st)"
  using assms by (auto simp: vgm2opl_def split: sum.splits)

lemma loop_start_in_file:
  assumes "resolve_header file = Inr h" "load_data file h = Inr pData"
  shows "unat (loop_offs h) < length pData"
    "drop (unat (loop_offs h)) pData =
       take (length pData - unat (loop_offs h)) (drop (unat (loop_abs h)) file)"
proof -
  from resolve_header_checked[OF assms(1)] obtain lenf loopf doffs where
    co: "check_offsets (lenf + 4) doffs (loop_offset_field loopf) = Inr h" by blast
  note ok = check_offsets_ok[OF co]
  note sb = header_section_bounds[OF ok(4,5,6,7)]
  have pd: "pData = take (unat (data_len h)) (drop (unat (data_offs h)) file)"
    and len: "length pData = unat (data_len h)"
    using assms(2) by (auto simp: load_data_def Let_def split: if_splits)
  show "unat (loop_offs h) < length pData" using sb(3) len by simp
  have "drop (unat (loop_offs h)) pData =
      take (unat (data_len h) - unat (loop_offs h))
        (drop (unat (loop_offs h) + unat (data_offs h)) file)"
    by (subst pd) (simp add: drop_take)
  also have "unat (loop_offs h) + unat (data_offs h) = unat (loop_abs h)" using sb(2) by simp
  finally show "drop (unat (loop_offs h)) pData =
       take (length pData - unat (loop_offs h)) (drop (unat (loop_abs h)) file)"
    using len by simp
qed

text \<open>
  A file that loops: 67 bytes of version 1.51, the data section \<^verbatim>\<open>62 62 66\<close> at 0x40 and
  the loop offset field 0x25, which points at 0x41, the second wait.
\<close>

definition example_loop_vgm :: "byte list" where
  "example_loop_vgm =
     [0x56, 0x67, 0x6D, 0x20, 0x3F, 0, 0, 0, 0x51, 0x01, 0, 0] @ replicate 16 0
     @ [0x25, 0, 0, 0] @ replicate 20 0 @ [0, 0, 0, 0] @ replicate 8 0
     @ [0x62, 0x62, 0x66]"

lemma example_loop_vgm_heads:
  "readHead example_loop_vgm 0 = Inr 0x206d6756" "readHead example_loop_vgm 0x04 = Inr 0x3F"
  "readHead example_loop_vgm 0x08 = Inr 0x151" "readHead example_loop_vgm 0x1c = Inr 0x25"
  "readHead example_loop_vgm 0x34 = Inr 0"
  by code_simp+

lemma example_loop_vgm_header:
  "resolve_header example_loop_vgm =
     Inr \<lparr>file_len = 0x43, data_offs = 0x40, loop_abs = 0x41, loop_offs = 1, data_len = 3\<rparr>"
  by (simp add: resolve_header_fields[OF example_loop_vgm_heads(1,3,2,4)]
        example_loop_vgm_heads(5) check_offsets_def data_offset_field_def
        loop_offset_field_def MAX_DATA_SECTION_def)

lemma example_loop_vgm_data:
  "load_data example_loop_vgm
     \<lparr>file_len = 0x43, data_offs = 0x40, loop_abs = 0x41, loop_offs = 1, data_len = 3\<rparr>
   = Inr [0x62, 0x62, 0x66]"
  by code_simp

lemma control_offset_frames:
  "control_offset 735 = Inr 16" "control_offset 1470 = Inr 32" "control_offset 2205 = Inr 49"
  using control_offset_exact[of 735] control_offset_exact[of 1470] control_offset_exact[of 2205]
  by (simp_all add: INT32_MAX_def)

lemma decode_step_frame:
  assumes "control_offset (samp_offs st + 735) = Inr c" "ctl_offs st < c"
    "samp_offs st \<le> 2000000000"
  shows "decode_step st (0x62 # rest) =
     (Inr (Some rest),
      st\<lparr>wait_cmd := True, wait_req := 735, samp_offs := samp_offs st + 735,
         out := out st @ [Wait (c - ctl_offs st)], ctl_offs := c\<rparr>)"
  using assms
  by (simp add: decode_step_def dispatch_def data_byte_def handle_wait_def Let_def INT32_MAX_def)

lemma decode_step_marker: "decode_step st (0x66 # rest) = (Inr None, st)"
  by (simp add: decode_step_def dispatch_def data_byte_def)

lemma example_loop_vgm_run:
  "vgm2opl ''2'' example_loop_vgm =
     (Inr (), \<lparr>wait_cmd = True, wait_req = 735, samp_offs = 2205, ctl_offs = 49,
               out = [Header 980, Wait 16, Wait 16, Wait 17]\<rparr>)"
proof -
  define st0 where "st0 = vgm_init\<lparr>out := [Header 980]\<rparr>"
  define st1 where "st1 = \<lparr>wait_cmd = True, wait_req = 735, samp_offs = 735, ctl_offs = 16,
               out = [Header 980, Wait 16]\<rparr>"
  define st2 where "st2 = \<lparr>wait_cmd = True, wait_req = 735, samp_offs = 1470, ctl_offs = 32,
               out = [Header 980, Wait 16, Wait 16]\<rparr>"
  define st3 where "st3 = \<lparr>wait_cmd = True, wait_req = 735, samp_offs = 2205, ctl_offs = 49,
               out = [Header 980, Wait 16, Wait 16, Wait 17]\<rparr>"
  have s1: "decode_step st0 [0x62, 0x62, 0x66] = (Inr (Some [0x62, 0x66]), st1)"
    by (subst decode_step_frame[where c = 16])
       (simp_all add: st0_def st1_def vgm_init_def control_offset_frames)
  have s2: "decode_step st1 [0x62, 0x66] = (Inr (Some [0x66]), st2)"
    by (subst decode_step_frame[where c = 32])
       (simp_all add: st1_def st2_def control_offset_frames)
  have s3: "decode_step st2 [0x62, 0x66] = (Inr (Some [0x66]), st3)"
    by (subst decode_step_frame[where c = 49])
       (simp_all add: st2_def st3_def control_offset_frames)
  have p1: "decode_pass st0 [0x62, 0x62, 0x66] = (Inr (), st2)"
    by (simp add: decode_pass_Cons s1 s2 decode_step_marker)
  have p2: "decode_pass st2 [0x62, 0x66] = (Inr (), st3)"
    by (simp add: decode_pass_Cons s3 decode_step_marker)
  have "passes 0 2 [0x62, 0x62, 0x66] (Suc 0) st0 = (Inr (), st3)"
    by (simp add: passes_two p1 p2)
  then show ?thesis
    by (simp add: vgm2opl_def example_loop_vgm_header example_loop_vgm_data st0_def st3_def)
qed

text \<open>
  Claim C6. When the converter run with repeat count 2 succeeds, it made two passes
  over the data section: the first from its start, the second from the loop offset,
  which is where the absolute loop offset points in the file, and from the state the
  first pass ended in. The sample offset after the first pass is what the events of the
  data section ask for, and the second pass adds to it what the events from the loop
  offset on ask for. After each pass the control position is the floor of the sample
  offset times 980 / 44100. The waits printed by the first pass add up to the control
  position it reached, those printed by the second pass to the advance from there, and
  so all the waits printed add up to the final control position.
\<close>

theorem two_pass_continuity:
  assumes "vgm2opl ''2'' file = (Inr (), st)"
  shows "\<exists>h pData st1 ys1 ys2.
       resolve_header file = Inr h \<and> load_data file h = Inr pData
     \<and> decode_pass (vgm_init\<lparr>out := [Header 980]\<rparr>) pData = (Inr (), st1)
     \<and> decode_pass st1 (drop (unat (loop_offs h)) pData) = (Inr (), st)
     \<and> unat (loop_offs h) < length pData
     \<and> drop (unat (loop_offs h)) pData =
         take (length pData - unat (loop_offs h)) (drop (unat (loop_abs h)) file)
     \<and> samp_offs st1 = pass_samples pData
     \<and> samp_offs st = samp_offs st1 + pass_samples (drop (unat (loop_offs h)) pData)
     \<and> ctl_offs st1 = (samp_offs st1 * 980) div 44100
     \<and> ctl_offs st = (samp_offs st * 980) div 44100
     \<and> out st1 = Header 980 # ys1 \<and> out st = Header 980 # ys1 @ ys2
     \<and> wait_total ys1 = ctl_offs st1
     \<and> wait_total ys2 = ctl_offs st - ctl_offs st1
     \<and> wait_total (out st) = ctl_offs st"
proof -
  define st0 where "st0 = vgm_init\<lparr>out := [Header 980]\<rparr>"
  from vgm2opl_two[OF assms] obtain h pData where
    rh: "resolve_header file = Inr h" and ld: "load_data file h = Inr pData"
    and ps: "passes 0 2 pData (unat (loop_offs h)) st0 = (Inr (), st)"
    unfolding st0_def by blast
  obtain r1 st1 where d1: "decode_pass st0 pData = (r1, st1)" by (cases "decode_pass st0 pData")
  have r1: "r1 = Inr ()" using ps d1 by (cases r1) (simp_all add: passes_two)
  obtain r2 st2 where d2: "decode_pass st1 (drop (unat (loop_offs h)) pData) = (r2, st2)"
    by (cases "decode_pass st1 (drop (unat (loop_offs h)) pData)")
  have r2: "r2 = Inr ()" and st2: "st2 = st"
    using ps d1 r1 d2 by (cases r2; simp add: passes_two)+
  have p1: "decode_pass st0 pData = (Inr (), st1)" using d1 r1 by simp
  have p2: "decode_pass st1 (drop (unat (loop_offs h)) pData) = (Inr (), st)"
    using d2 r2 st2 by simp
  have a0: "accounted st0" unfolding st0_def by (rule accounted_init)
  have f1: "accounted st1 \<and> samp_offs st1 = samp_offs st0 + pass_samples pData
    \<and> (\<exists>ys. out st1 = out st0 @ ys \<and> wait_total ys = ctl_offs st1 - ctl_offs st0)"
    using p1 a0 by (rule decode_pass_accounted)
  then have a1: "accounted st1" by blast
  have f2: "accounted st \<and>
      samp_offs st = samp_offs st1 + pass_samples (drop (unat (loop_offs h)) pData)
    \<and> (\<exists>ys. out st = out st1 @ ys \<and> wait_total ys = ctl_offs st - ctl_offs st1)"
    using p2 a1 by (rule decode_pass_accounted)
  from f1 obtain ys1 where ys1: "out st1 = out st0 @ ys1"
    "wait_total ys1 = ctl_offs st1 - ctl_offs st0" by blast
  from f2 obtain ys2 where ys2: "out st = out st1 @ ys2"
    "wait_total ys2 = ctl_offs st - ctl_offs st1" by blast
  have z: "samp_offs st0 = 0" "ctl_offs st0 = 0" "out st0 = [Header 980]"
    by (simp_all add: st0_def vgm_init_def)
  note ls = loop_start_in_file[OF rh ld]
  have "resolve_header file = Inr h \<and> load_data file h = Inr pData
     \<and> decode_pass st0 pData = (Inr (), st1)
     \<and> decode_pass st1 (drop (unat (loop_offs h)) pData) = (Inr (), st)
     \<and> unat (loop_offs h) < length pData
     \<and> drop (unat (loop_offs h)) pData =
         take (length pData - unat (loop_offs h)) (drop (unat (loop_abs h)) file)
     \<and> samp_offs st1 = pass_samples pData
     \<and> samp_offs st = samp_offs st1 + pass_samples (drop (unat (loop_offs h)) pData)
     \<and> ctl_offs st1 = (samp_offs st1 * 980) div 44100
     \<and> ctl_offs st = (samp_offs st * 980) div 44100
     \<and> out st1 = Header 980 # ys1 \<and> out st = Header 980 # ys1 @ ys2
     \<and> wait_total ys1 = ctl_offs st1
     \<and> wait_total ys2 = ctl_offs st - ctl_offs st1
     \<and> wait_total (out st) = ctl_offs st"
    using rh ld p1 p2 ls f1 f2 ys1 ys2 z by (simp add: accounted_def)
  then show ?thesis unfolding st0_def by blast
qed

theorem two_pass_continuity_witness:
  "vgm2opl ''2'' example_loop_vgm =
     (Inr (), \<lparr>wait_cmd = True, wait_req = 735, samp_offs = 2205, ctl_offs = 49,
               out = [Header 980, Wait 16, Wait 16, Wait 17]\<rparr>)
   \<and> wait_total [Header 980, Wait 16, Wait 16, Wait 17] = 49
   \<and> (2205 * 980) div 44100 = (49 :: int)"
proof -
  let ?st = "\<lparr>wait_cmd = True, wait_req = 735, samp_offs = 2205, ctl_offs = 49,
               out = [Header 980, Wait 16, Wait 16, Wait 17]\<rparr>"
  from two_pass_continuity[OF example_loop_vgm_run]
  have "ctl_offs ?st = (samp_offs ?st * 980) div 44100 \<and> wait_total (out ?st) = ctl_offs ?st"
    by blast
  then show ?thesis using example_loop_vgm_run by simp
qed

end
